theory Spec2Isabelle
  imports Complex_Main "HOL-Library.AList"
begin

section \<open>Data model (shared/schema.ts)\<close>

text \<open>
  A JavaScript \<open>number\<close> is modelled by an exact real; the values \<open>Infinity\<close> and
  \<open>NaN\<close>, which the runners produce themselves, are separate constructors of
  \<open>score\<close>. Rounding of IEEE doubles is not modelled. An optional field is an
  \<open>option\<close>. A \<open>Record<string, T>\<close> is an association list in insertion order,
  read with \<open>map_of\<close> and written with \<open>AList.update\<close>; a \<open>Set<string>\<close> is a
  list without repetition in insertion order.

  Only the own properties of a plain object are modelled. A key that is not stored reads
  as \<open>undefined\<close>, also where JavaScript finds a member inherited from
  \<open>Object.prototype\<close> under that name (\<open>constructor\<close>, \<open>toString\<close> and the
  like), and the key \<open>__proto__\<close> is stored like any other, where JavaScript stores
  nothing for a number or a string. The statements on recorded distances are therefore
  made for graphs without a node called \<open>__proto__\<close>, for a target that is a listed
  node, and for weights on which the additions of doubles are exact
  (\<open>exact_weights\<close> below).
\<close>

type_synonym 'v obj = "(string \<times> 'v) list"

record Node =
  node_id :: string
  node_label :: string
  node_x :: "real option"
  node_y :: "real option"
  node_color :: "string option"

record Edge =
  edge_id :: string
  edge_source :: string
  edge_target :: string
  edge_weight :: "real option"
  edge_label :: "string option"

datatype score = Num real | Infinity | NaN

datatype algorithm = Bfs | Dfs | Dijkstra | Astar

text \<open>The template literals of the step descriptions, kept as template and arguments.\<close>

datatype description =
    StartingBFS string
  | TargetReached string
  | Discovered string string
  | MovingToNextInQueue string
  | StartingDFS string
  | Visiting string
  | AddingNeighbor string
  | StartingDijkstra string
  | TargetReachedWithDistance string "score option"
  | UpdatedDistance string score
  | MovingToNode string "score option"
  | FinalShortestPath string "string list"
  | StartingAStar string string
  | PathFoundWithCost string "score option"
  | UpdatedNode string score score
  | MovingToNodeF string "score option"
  | NoPathFound string string

record AlgorithmStep =
  step :: nat
  visited :: "string list"
  current :: "string option"
  queue :: "string list option"
  stack :: "string list option"
  distances :: "score obj option"
  path :: "string list option"
  description :: description

record AlgorithmResult =
  algorithm :: algorithm
  startNode :: string
  targetNode :: "string option"
  steps :: "AlgorithmStep list"
  executionTime :: real
  timeComplexity :: string
  spaceComplexity :: string

text \<open>
  The exceptions of the engine. \<open>UnknownNodeReference\<close> is the TypeError raised by
  \<open>adjacencyList[edge.source].push\<close> when the entry is undefined; \<open>MissingTarget\<close> is
  the \<open>Error("A* search requires a target node")\<close>; \<open>NotIterable\<close> is the TypeError of
  a \<open>for ... of\<close> (or a spread) over an undefined adjacency entry;
  \<open>UndefinedProperty\<close> is the TypeError of reading a property of \<open>undefined\<close>
  (\<open>node.x\<close> for an id absent from \<open>nodeMap\<close>).
\<close>

datatype error = UnknownNodeReference | MissingTarget | NotIterable | UndefinedProperty

subsection \<open>JavaScript truthiness and sets\<close>

definition truthy_string :: "string option \<Rightarrow> bool" where
  "truthy_string s = (case s of None \<Rightarrow> False | Some v \<Rightarrow> v \<noteq> [])"

definition truthy_number :: "real option \<Rightarrow> bool" where
  "truthy_number n = (case n of None \<Rightarrow> False | Some v \<Rightarrow> v \<noteq> 0)"

definition set_add :: "string list \<Rightarrow> string \<Rightarrow> string list" where
  "set_add s k = (if k \<in> set s then s else s @ [k])"

definition set_delete :: "string list \<Rightarrow> string \<Rightarrow> string list" where
  "set_delete s k = filter (\<lambda>j. j \<noteq> k) s"

section \<open>Adjacency builder (createAdjacencyList)\<close>

record neighbor =
  nodeId :: string
  weight :: real

type_synonym AdjacencyList = "neighbor list obj"

definition effective_weight :: "real option \<Rightarrow> real" where
  "effective_weight w = (case w of None \<Rightarrow> 1 | Some v \<Rightarrow> if v = 0 then 1 else v)"

definition push_neighbor :: "AdjacencyList \<Rightarrow> string \<Rightarrow> neighbor \<Rightarrow> error + AdjacencyList" where
  "push_neighbor adj k n =
     (case map_of adj k of
        None \<Rightarrow> Inl UnknownNodeReference
      | Some ns \<Rightarrow> Inr (AList.update k (ns @ [n]) adj))"

fun add_edges :: "AdjacencyList \<Rightarrow> Edge list \<Rightarrow> error + AdjacencyList" where
  "add_edges adj [] = Inr adj"
| "add_edges adj (e # es) =
     (let w = effective_weight (edge_weight e) in
      case push_neighbor adj (edge_source e) \<lparr>nodeId = edge_target e, weight = w\<rparr> of
        Inl err \<Rightarrow> Inl err
      | Inr adj1 \<Rightarrow>
          (case push_neighbor adj1 (edge_target e) \<lparr>nodeId = edge_source e, weight = w\<rparr> of
             Inl err \<Rightarrow> Inl err
           | Inr adj2 \<Rightarrow> add_edges adj2 es))"

fun init_adjacency :: "AdjacencyList \<Rightarrow> Node list \<Rightarrow> AdjacencyList" where
  "init_adjacency adj [] = adj"
| "init_adjacency adj (n # ns) = init_adjacency (AList.update (node_id n) [] adj) ns"

definition createAdjacencyList :: "Node list \<Rightarrow> Edge list \<Rightarrow> error + AdjacencyList" where
  "createAdjacencyList nodes edges = add_edges (init_adjacency [] nodes) edges"

text \<open>The ids an adjacency projection lists as neighbours of a node.\<close>

definition neighbors :: "AdjacencyList \<Rightarrow> string \<Rightarrow> neighbor list" where
  "neighbors adj a = (case map_of adj a of None \<Rightarrow> [] | Some ns \<Rightarrow> ns)"

definition neighbor_ids :: "AdjacencyList \<Rightarrow> string set" where
  "neighbor_ids adj = (\<Union>ns \<in> snd ` set adj. nodeId ` set ns)"

section \<open>Breadth-first search (executeBFS)\<close>

record bfs_state =
  bfs_visited :: "string list"
  bfs_queue :: "string list"
  bfs_steps :: "AlgorithmStep list"
  bfs_step :: nat

definition bfs_push :: "bfs_state \<Rightarrow> string option \<Rightarrow> description \<Rightarrow> bfs_state" where
  "bfs_push st cur d =
     st\<lparr>bfs_steps := bfs_steps st @
           [\<lparr>step = bfs_step st, visited = bfs_visited st, current = cur,
             queue = Some (bfs_queue st), stack = None, distances = None, path = None,
             description = d\<rparr>],
        bfs_step := bfs_step st + 1\<rparr>"

definition bfs_discover :: "string \<Rightarrow> neighbor \<Rightarrow> bfs_state \<Rightarrow> bfs_state" where
  "bfs_discover c n st =
     (if nodeId n \<notin> set (bfs_visited st)
      then bfs_push (st\<lparr>bfs_visited := set_add (bfs_visited st) (nodeId n),
                        bfs_queue := bfs_queue st @ [nodeId n]\<rparr>)
             (Some c) (Discovered c (nodeId n))
      else st)"

fun bfs_neighbors :: "string \<Rightarrow> neighbor list \<Rightarrow> bfs_state \<Rightarrow> bfs_state" where
  "bfs_neighbors c [] st = st"
| "bfs_neighbors c (n # ns) st = bfs_neighbors c ns (bfs_discover c n st)"

definition bfs_advance :: "bfs_state \<Rightarrow> bfs_state" where
  "bfs_advance st =
     (case bfs_queue st of
        [] \<Rightarrow> st
      | h # _ \<Rightarrow> bfs_push st (Some h) (MovingToNextInQueue h))"

lemma bfs_push_fields [simp]:
  "bfs_visited (bfs_push st cur d) = bfs_visited st"
  "bfs_queue (bfs_push st cur d) = bfs_queue st"
  "bfs_step (bfs_push st cur d) = bfs_step st + 1"
  by (simp_all add: bfs_push_def)

lemma bfs_advance_fields [simp]:
  "bfs_visited (bfs_advance st) = bfs_visited st"
  "bfs_queue (bfs_advance st) = bfs_queue st"
  by (simp_all add: bfs_advance_def split: list.splits)

lemma set_set_add [simp]: "set (set_add s k) = insert k (set s)"
  by (auto simp: set_add_def)

lemma bfs_discover_visited:
  "set (bfs_visited (bfs_discover c n st)) = insert (nodeId n) (set (bfs_visited st))"
  by (auto simp: bfs_discover_def)

lemma bfs_discover_queue:
  "bfs_queue (bfs_discover c n st) =
     (if nodeId n \<in> set (bfs_visited st) then bfs_queue st else bfs_queue st @ [nodeId n])"
  by (simp add: bfs_discover_def)

lemma bfs_neighbors_visited:
  "set (bfs_visited (bfs_neighbors c ns st)) = set (bfs_visited st) \<union> nodeId ` set ns"
  by (induction ns arbitrary: st) (auto simp: bfs_discover_visited)

lemma bfs_neighbors_same_queue:
  "nodeId ` set ns \<subseteq> set (bfs_visited st) \<Longrightarrow>
   bfs_queue (bfs_neighbors c ns st) = bfs_queue st"
proof (induction ns arbitrary: st)
  case Nil
  then show ?case by simp
next
  case (Cons n ns)
  from Cons.prems have n: "nodeId n \<in> set (bfs_visited st)" by simp
  then have "bfs_discover c n st = st" by (simp add: bfs_discover_def)
  with Cons show ?case by simp
qed

lemma finite_neighbor_ids: "finite (neighbor_ids adj)"
  by (simp add: neighbor_ids_def)

lemma map_of_neighbor_ids:
  "map_of adj c = Some ns \<Longrightarrow> nodeId ` set ns \<subseteq> neighbor_ids adj"
  by (force simp: neighbor_ids_def dest: map_of_SomeD)

function bfs_loop :: "AdjacencyList \<Rightarrow> string option \<Rightarrow> bfs_state \<Rightarrow> error + bfs_state" where
  "bfs_loop adj tgt st =
     (case bfs_queue st of
        [] \<Rightarrow> Inr st
      | c # q \<Rightarrow>
          if truthy_string tgt \<and> Some c = tgt
          then Inr (bfs_push (st\<lparr>bfs_queue := q\<rparr>) (Some c) (TargetReached c))
          else (case map_of adj c of
                  None \<Rightarrow> Inl NotIterable
                | Some ns \<Rightarrow>
                    bfs_loop adj tgt (bfs_advance (bfs_neighbors c ns (st\<lparr>bfs_queue := q\<rparr>)))))"
  by pat_completeness auto
termination
proof (relation "measures [\<lambda>(adj, tgt, st). card (neighbor_ids adj - set (bfs_visited st)),
                           \<lambda>(adj, tgt, st). length (bfs_queue st)]", goal_cases)
  case 1
  then show ?case by simp
next
  case (2 adj tgt st c q ns)
  let ?st2 = "bfs_neighbors c ns (st\<lparr>bfs_queue := q\<rparr>)"
  have vis: "set (bfs_visited ?st2) = set (bfs_visited st) \<union> nodeId ` set ns"
    by (simp add: bfs_neighbors_visited)
  have sub: "nodeId ` set ns \<subseteq> neighbor_ids adj"
    using 2(3) by (rule map_of_neighbor_ids)
  show ?case
  proof (cases "nodeId ` set ns \<subseteq> set (bfs_visited st)")
    case True
    then have "bfs_queue ?st2 = q"
      using bfs_neighbors_same_queue [of ns "st\<lparr>bfs_queue := q\<rparr>" c] by simp
    moreover from True vis have "set (bfs_visited ?st2) = set (bfs_visited st)"
      by auto
    ultimately show ?thesis using 2(1) by simp
  next
    case False
    then obtain v where v: "v \<in> nodeId ` set ns" "v \<notin> set (bfs_visited st)"
      by auto
    with sub have "v \<in> neighbor_ids adj" by auto
    with v vis have "neighbor_ids adj - set (bfs_visited ?st2)
        \<subset> neighbor_ids adj - set (bfs_visited st)"
      by auto
    then have "card (neighbor_ids adj - set (bfs_visited ?st2))
        < card (neighbor_ids adj - set (bfs_visited st))"
      by (intro psubset_card_mono) (auto simp: finite_neighbor_ids)
    then show ?thesis by simp
  qed
qed

declare bfs_loop.simps [simp del]

definition bfs_init :: "string \<Rightarrow> bfs_state" where
  "bfs_init startNodeId =
     bfs_push \<lparr>bfs_visited = set_add [] startNodeId, bfs_queue = [startNodeId],
               bfs_steps = [], bfs_step = 0\<rparr>
       (Some startNodeId) (StartingBFS startNodeId)"

definition executeBFS :: "Node list \<Rightarrow> Edge list \<Rightarrow> string \<Rightarrow> string option \<Rightarrow> error + AlgorithmResult" where
  "executeBFS nodes edges startNodeId targetNodeId =
     (case createAdjacencyList nodes edges of
        Inl err \<Rightarrow> Inl err
      | Inr adjacencyList \<Rightarrow>
          (case bfs_loop adjacencyList targetNodeId (bfs_init startNodeId) of
             Inl err \<Rightarrow> Inl err
           | Inr st \<Rightarrow>
               Inr \<lparr>algorithm = Bfs, startNode = startNodeId, targetNode = targetNodeId,
                    steps = bfs_steps st, executionTime = 0,
                    timeComplexity = ''O(V + E)'', spaceComplexity = ''O(V)''\<rparr>))"

section \<open>Depth-first search (executeDFS)\<close>

text \<open>The stack is the JavaScript array: \<open>push\<close> appends, \<open>pop\<close> takes the last element.\<close>

record dfs_state =
  dfs_visited :: "string list"
  dfs_stack :: "string list"
  dfs_steps :: "AlgorithmStep list"
  dfs_step :: nat

definition dfs_push :: "dfs_state \<Rightarrow> string option \<Rightarrow> description \<Rightarrow> dfs_state" where
  "dfs_push st cur d =
     st\<lparr>dfs_steps := dfs_steps st @
           [\<lparr>step = dfs_step st, visited = dfs_visited st, current = cur,
             queue = None, stack = Some (dfs_stack st), distances = None, path = None,
             description = d\<rparr>],
        dfs_step := dfs_step st + 1\<rparr>"

definition dfs_add :: "string \<Rightarrow> neighbor \<Rightarrow> dfs_state \<Rightarrow> dfs_state" where
  "dfs_add c n st =
     (if nodeId n \<notin> set (dfs_visited st)
      then dfs_push (st\<lparr>dfs_stack := dfs_stack st @ [nodeId n]\<rparr>)
             (Some c) (AddingNeighbor (nodeId n))
      else st)"

fun dfs_neighbors :: "string \<Rightarrow> neighbor list \<Rightarrow> dfs_state \<Rightarrow> dfs_state" where
  "dfs_neighbors c [] st = st"
| "dfs_neighbors c (n # ns) st = dfs_neighbors c ns (dfs_add c n st)"

lemma dfs_push_fields [simp]:
  "dfs_visited (dfs_push st cur d) = dfs_visited st"
  "dfs_stack (dfs_push st cur d) = dfs_stack st"
  "dfs_step (dfs_push st cur d) = dfs_step st + 1"
  by (simp_all add: dfs_push_def)

lemma dfs_add_visited [simp]: "dfs_visited (dfs_add c n st) = dfs_visited st"
  by (simp add: dfs_add_def)

lemma dfs_add_stack:
  "dfs_stack (dfs_add c n st) =
     (if nodeId n \<in> set (dfs_visited st) then dfs_stack st else dfs_stack st @ [nodeId n])"
  by (simp add: dfs_add_def)

lemma dfs_neighbors_visited [simp]: "dfs_visited (dfs_neighbors c ns st) = dfs_visited st"
  by (induction ns arbitrary: st) simp_all

lemma dfs_neighbors_stack:
  "dfs_stack (dfs_neighbors c ns st) =
     dfs_stack st @ filter (\<lambda>k. k \<notin> set (dfs_visited st)) (map nodeId ns)"
  by (induction ns arbitrary: st) (simp_all add: dfs_add_stack)

function dfs_loop :: "AdjacencyList \<Rightarrow> string option \<Rightarrow> dfs_state \<Rightarrow> error + dfs_state" where
  "dfs_loop adj tgt st =
     (if dfs_stack st = [] then Inr st
      else if last (dfs_stack st) \<in> set (dfs_visited st)
      then dfs_loop adj tgt (st\<lparr>dfs_stack := butlast (dfs_stack st)\<rparr>)
      else if truthy_string tgt \<and> Some (last (dfs_stack st)) = tgt
      then Inr (dfs_push
                  (dfs_push (st\<lparr>dfs_stack := butlast (dfs_stack st),
                                dfs_visited := set_add (dfs_visited st) (last (dfs_stack st))\<rparr>)
                     (Some (last (dfs_stack st))) (Visiting (last (dfs_stack st))))
                  (Some (last (dfs_stack st))) (TargetReached (last (dfs_stack st))))
      else (case map_of adj (last (dfs_stack st)) of
              None \<Rightarrow> Inl NotIterable
            | Some ns \<Rightarrow>
                dfs_loop adj tgt
                  (dfs_neighbors (last (dfs_stack st)) (rev ns)
                     (dfs_push (st\<lparr>dfs_stack := butlast (dfs_stack st),
                                   dfs_visited := set_add (dfs_visited st) (last (dfs_stack st))\<rparr>)
                        (Some (last (dfs_stack st))) (Visiting (last (dfs_stack st)))))))"
  by pat_completeness auto
termination
proof (relation "measures
    [\<lambda>(adj, tgt, st). card ((neighbor_ids adj \<union> set (dfs_stack st)) - set (dfs_visited st)),
     \<lambda>(adj, tgt, st). length (dfs_stack st)]", goal_cases)
  case 1
  then show ?case by simp
next
  case (2 adj tgt st)
  have "set (butlast (dfs_stack st)) \<subseteq> set (dfs_stack st)"
    by (auto dest: in_set_butlastD)
  then have "(neighbor_ids adj \<union> set (butlast (dfs_stack st))) - set (dfs_visited st)
      \<subseteq> (neighbor_ids adj \<union> set (dfs_stack st)) - set (dfs_visited st)"
    by auto
  then have "card ((neighbor_ids adj \<union> set (butlast (dfs_stack st))) - set (dfs_visited st))
      \<le> card ((neighbor_ids adj \<union> set (dfs_stack st)) - set (dfs_visited st))"
    by (intro card_mono) (auto simp: finite_neighbor_ids)
  with 2(1) show ?case by auto
next
  case (3 adj tgt st ns)
  let ?c = "last (dfs_stack st)"
  have c: "?c \<in> set (dfs_stack st)" using 3(1) by simp
  have "nodeId ` set ns \<subseteq> neighbor_ids adj"
    using 3(4) by (rule map_of_neighbor_ids)
  moreover have "set (butlast (dfs_stack st)) \<subseteq> set (dfs_stack st)"
    by (auto dest: in_set_butlastD)
  ultimately have "(neighbor_ids adj \<union>
        (set (butlast (dfs_stack st)) \<union> {k \<in> nodeId ` set ns. k \<noteq> ?c \<and> k \<notin> set (dfs_visited st)}))
        - insert ?c (set (dfs_visited st))
      \<subset> (neighbor_ids adj \<union> set (dfs_stack st)) - set (dfs_visited st)"
    using c 3(2) by auto
  then have "card ((neighbor_ids adj \<union>
        (set (butlast (dfs_stack st)) \<union> {k \<in> nodeId ` set ns. k \<noteq> ?c \<and> k \<notin> set (dfs_visited st)}))
        - insert ?c (set (dfs_visited st)))
      < card ((neighbor_ids adj \<union> set (dfs_stack st)) - set (dfs_visited st))"
    by (intro psubset_card_mono) (auto simp: finite_neighbor_ids)
  then show ?case by (simp add: dfs_neighbors_stack)
qed

declare dfs_loop.simps [simp del]

definition dfs_init :: "string \<Rightarrow> dfs_state" where
  "dfs_init startNodeId =
     dfs_push \<lparr>dfs_visited = [], dfs_stack = [startNodeId], dfs_steps = [], dfs_step = 0\<rparr>
       (Some startNodeId) (StartingDFS startNodeId)"

definition executeDFS :: "Node list \<Rightarrow> Edge list \<Rightarrow> string \<Rightarrow> string option \<Rightarrow> error + AlgorithmResult" where
  "executeDFS nodes edges startNodeId targetNodeId =
     (case createAdjacencyList nodes edges of
        Inl err \<Rightarrow> Inl err
      | Inr adjacencyList \<Rightarrow>
          (case dfs_loop adjacencyList targetNodeId (dfs_init startNodeId) of
             Inl err \<Rightarrow> Inl err
           | Inr st \<Rightarrow>
               Inr \<lparr>algorithm = Dfs, startNode = startNodeId, targetNode = targetNodeId,
                    steps = dfs_steps st, executionTime = 0,
                    timeComplexity = ''O(V + E)'', spaceComplexity = ''O(V)''\<rparr>))"

section \<open>Scores\<close>

text \<open>
  \<open>read_score m k\<close> is \<open>m[k]\<close> used as a number: a missing key gives \<open>undefined\<close>,
  which compares false with everything and adds to \<open>NaN\<close>.
\<close>

definition read_score :: "score obj \<Rightarrow> string \<Rightarrow> score" where
  "read_score m k = (case map_of m k of None \<Rightarrow> NaN | Some v \<Rightarrow> v)"

fun lt :: "score \<Rightarrow> score \<Rightarrow> bool" where
  "lt (Num a) (Num b) = (a < b)"
| "lt (Num a) Infinity = True"
| "lt _ _ = False"

fun ge :: "score \<Rightarrow> score \<Rightarrow> bool" where
  "ge (Num a) (Num b) = (b \<le> a)"
| "ge Infinity (Num b) = True"
| "ge Infinity Infinity = True"
| "ge _ _ = False"

fun add_num :: "score \<Rightarrow> real \<Rightarrow> score" where
  "add_num (Num a) w = Num (a + w)"
| "add_num Infinity w = Infinity"
| "add_num NaN w = NaN"

fun assign_all :: "'v \<Rightarrow> Node list \<Rightarrow> 'v obj \<Rightarrow> 'v obj" where
  "assign_all v [] m = m"
| "assign_all v (n # ns) m = assign_all v ns (AList.update (node_id n) v m)"

fun add_all :: "Node list \<Rightarrow> string list \<Rightarrow> string list" where
  "add_all [] s = s"
| "add_all (n # ns) s = add_all ns (set_add s (node_id n))"

text \<open>
  The scan \<open>for (const nodeId of set) if (score[nodeId] < best) ...\<close> of both
  weighted runners, started with \<open>(null, Infinity)\<close>.
\<close>

fun min_scan :: "score obj \<Rightarrow> string list \<Rightarrow> string option \<times> score \<Rightarrow> string option \<times> score" where
  "min_scan m [] acc = acc"
| "min_scan m (k # ks) acc =
     min_scan m ks (if lt (read_score m k) (snd acc) then (Some k, read_score m k) else acc)"

text \<open>
  The walk \<open>while (current !== null) { path.unshift(current); current = previous[current] }\<close>.
  It has no bound of its own; on a key missing from \<open>previous\<close> the source goes on with
  \<open>undefined\<close> and returns no path, which is the value \<open>None\<close> here, as is a walk
  round a cycle.
\<close>

partial_function (option) build_path ::
  "string option obj \<Rightarrow> string option \<Rightarrow> string list \<Rightarrow> string list option" where
  "build_path previous cur p =
     (case cur of
        None \<Rightarrow> Some p
      | Some c \<Rightarrow>
          (case map_of previous c of
             None \<Rightarrow> None
           | Some nxt \<Rightarrow> build_path previous nxt (c # p)))"

declare build_path.simps [code]

section \<open>Dijkstra (executeDijkstra)\<close>

record dijkstra_state =
  dj_distances :: "score obj"
  dj_previous :: "string option obj"
  dj_unvisited :: "string list"
  dj_steps :: "AlgorithmStep list"
  dj_step :: nat

definition dj_visited :: "Node list \<Rightarrow> string list \<Rightarrow> string list" where
  "dj_visited nodes unvisited = filter (\<lambda>k. k \<notin> set unvisited) (map node_id nodes)"

definition dj_push ::
  "Node list \<Rightarrow> dijkstra_state \<Rightarrow> string option \<Rightarrow> string list option \<Rightarrow> description \<Rightarrow> dijkstra_state" where
  "dj_push nodes st cur p d =
     st\<lparr>dj_steps := dj_steps st @
           [\<lparr>step = dj_step st, visited = dj_visited nodes (dj_unvisited st), current = cur,
             queue = None, stack = None, distances = Some (dj_distances st), path = p,
             description = d\<rparr>],
        dj_step := dj_step st + 1\<rparr>"

definition dj_relax :: "Node list \<Rightarrow> string \<Rightarrow> neighbor \<Rightarrow> dijkstra_state \<Rightarrow> dijkstra_state" where
  "dj_relax nodes c n st =
     (if nodeId n \<in> set (dj_unvisited st)
      then (let newDistance = add_num (read_score (dj_distances st) c) (weight n) in
            if lt newDistance (read_score (dj_distances st) (nodeId n))
            then dj_push nodes
                   (st\<lparr>dj_distances := AList.update (nodeId n) newDistance (dj_distances st),
                       dj_previous := AList.update (nodeId n) (Some c) (dj_previous st)\<rparr>)
                   (Some c) None (UpdatedDistance (nodeId n) newDistance)
            else st)
      else st)"

fun dj_neighbors :: "Node list \<Rightarrow> string \<Rightarrow> neighbor list \<Rightarrow> dijkstra_state \<Rightarrow> dijkstra_state" where
  "dj_neighbors nodes c [] st = st"
| "dj_neighbors nodes c (n # ns) st = dj_neighbors nodes c ns (dj_relax nodes c n st)"

definition dj_next :: "Node list \<Rightarrow> dijkstra_state \<Rightarrow> dijkstra_state" where
  "dj_next nodes st =
     (case fst (min_scan (dj_distances st) (dj_unvisited st) (None, Infinity)) of
        None \<Rightarrow> st
      | Some nextNode \<Rightarrow>
          if nextNode = [] then st
          else dj_push nodes st (Some nextNode) None
                 (MovingToNode nextNode (map_of (dj_distances st) nextNode)))"

lemma dj_push_fields [simp]:
  "dj_distances (dj_push nodes st cur p d) = dj_distances st"
  "dj_previous (dj_push nodes st cur p d) = dj_previous st"
  "dj_unvisited (dj_push nodes st cur p d) = dj_unvisited st"
  "dj_step (dj_push nodes st cur p d) = dj_step st + 1"
  by (simp_all add: dj_push_def)

lemma dj_relax_unvisited [simp]: "dj_unvisited (dj_relax nodes c n st) = dj_unvisited st"
  by (simp add: dj_relax_def Let_def)

lemma dj_neighbors_unvisited [simp]: "dj_unvisited (dj_neighbors nodes c ns st) = dj_unvisited st"
  by (induction ns arbitrary: st) simp_all

lemma dj_next_unvisited [simp]: "dj_unvisited (dj_next nodes st) = dj_unvisited st"
  by (simp add: dj_next_def split: option.splits)

lemma min_scan_fst:
  "fst (min_scan m ks acc) = Some c \<Longrightarrow> c \<in> set ks \<or> fst acc = Some c"
proof (induction ks arbitrary: acc)
  case Nil
  then show ?case by simp
next
  case (Cons k ks)
  let ?acc = "if lt (read_score m k) (snd acc) then (Some k, read_score m k) else acc"
  from Cons.prems have "fst (min_scan m ks ?acc) = Some c" by simp
  then have "c \<in> set ks \<or> fst ?acc = Some c" by (rule Cons.IH)
  then show ?case by (auto split: if_splits)
qed

lemma min_scan_in:
  "min_scan m ks (None, b) = (Some c, d) \<Longrightarrow> c \<in> set ks"
  using min_scan_fst [of m ks "(None, b)" c] by simp

lemma length_set_delete: "c \<in> set s \<Longrightarrow> length (set_delete s c) < length s"
  unfolding set_delete_def
  by (induction s) (auto simp: less_Suc_eq_le intro: le_less_trans length_filter_le)

function dijkstra_loop ::
  "Node list \<Rightarrow> AdjacencyList \<Rightarrow> string option \<Rightarrow> dijkstra_state \<Rightarrow> (error + dijkstra_state) option" where
  "dijkstra_loop nodes adj tgt st =
     (if dj_unvisited st = [] then Some (Inr st)
      else (case min_scan (dj_distances st) (dj_unvisited st) (None, Infinity) of
              (None, shortestDistance) \<Rightarrow> Some (Inr st)
            | (Some c, shortestDistance) \<Rightarrow>
                if c = [] \<or> shortestDistance = Infinity then Some (Inr st)
                else if truthy_string tgt \<and> Some c = tgt
                then (case build_path (dj_previous st) (Some c) [] of
                        None \<Rightarrow> None
                      | Some p \<Rightarrow>
                          Some (Inr (dj_push nodes
                                       (st\<lparr>dj_unvisited := set_delete (dj_unvisited st) c\<rparr>)
                                       (Some c) (Some p)
                                       (TargetReachedWithDistance c (map_of (dj_distances st) c)))))
                else (case map_of adj c of
                        None \<Rightarrow> Some (Inl NotIterable)
                      | Some ns \<Rightarrow>
                          dijkstra_loop nodes adj tgt
                            (dj_next nodes
                               (dj_neighbors nodes c ns
                                  (st\<lparr>dj_unvisited := set_delete (dj_unvisited st) c\<rparr>))))))"
  by pat_completeness auto
termination
  by (relation "measure (\<lambda>(nodes, adj, tgt, st). length (dj_unvisited st))")
     (auto simp: length_set_delete dest!: min_scan_in [OF sym])

declare dijkstra_loop.simps [simp del]

definition dj_init :: "Node list \<Rightarrow> string \<Rightarrow> dijkstra_state" where
  "dj_init nodes startNodeId =
     (let ds = AList.update startNodeId (Num 0) (assign_all Infinity nodes []) in
      \<lparr>dj_distances = ds,
       dj_previous = assign_all None nodes [],
       dj_unvisited = add_all nodes [],
       dj_steps = [\<lparr>step = 0, visited = [], current = Some startNodeId, queue = None,
                    stack = None, distances = Some ds, path = None,
                    description = StartingDijkstra startNodeId\<rparr>],
       dj_step = 1\<rparr>)"

definition dj_final :: "Node list \<Rightarrow> string option \<Rightarrow> dijkstra_state \<Rightarrow> (error + dijkstra_state) option" where
  "dj_final nodes tgt st =
     (case tgt of
        None \<Rightarrow> Some (Inr st)
      | Some t \<Rightarrow>
          if t \<noteq> [] \<and> map_of (dj_previous st) t \<noteq> None
          then (case build_path (dj_previous st) (Some t) [] of
                  None \<Rightarrow> None
                | Some p \<Rightarrow>
                    if dj_steps st = [] then Some (Inl UndefinedProperty)
                    else if path (last (dj_steps st)) = None
                    then Some (Inr (dj_push nodes st (Some t) (Some p) (FinalShortestPath t p)))
                    else Some (Inr st))
          else Some (Inr st))"

definition executeDijkstra ::
  "Node list \<Rightarrow> Edge list \<Rightarrow> string \<Rightarrow> string option \<Rightarrow> (error + AlgorithmResult) option" where
  "executeDijkstra nodes edges startNodeId targetNodeId =
     (case createAdjacencyList nodes edges of
        Inl err \<Rightarrow> Some (Inl err)
      | Inr adjacencyList \<Rightarrow>
          (case dijkstra_loop nodes adjacencyList targetNodeId (dj_init nodes startNodeId) of
             None \<Rightarrow> None
           | Some (Inl err) \<Rightarrow> Some (Inl err)
           | Some (Inr st) \<Rightarrow>
               (case dj_final nodes targetNodeId st of
                  None \<Rightarrow> None
                | Some (Inl err) \<Rightarrow> Some (Inl err)
                | Some (Inr st') \<Rightarrow>
                    Some (Inr \<lparr>algorithm = Dijkstra, startNode = startNodeId,
                               targetNode = targetNodeId, steps = dj_steps st',
                               executionTime = 0, timeComplexity = ''O(V^2 + E)'',
                               spaceComplexity = ''O(V)''\<rparr>))))"

section \<open>A* (executeAStar)\<close>

fun build_node_map :: "Node list \<Rightarrow> Node obj \<Rightarrow> Node obj" where
  "build_node_map [] m = m"
| "build_node_map (n # ns) m = build_node_map ns (AList.update (node_id n) n m)"

text \<open>
  \<open>getHeuristic\<close>: the test \<open>!node.x || !node.y || !target.x || !target.y\<close> is evaluated
  left to right, so \<open>target\<close> is only read when both coordinates of \<open>node\<close> are truthy.
\<close>

definition getHeuristic :: "Node obj \<Rightarrow> string \<Rightarrow> string \<Rightarrow> error + real" where
  "getHeuristic nodeMap targetNodeId k =
     (case map_of nodeMap k of
        None \<Rightarrow> Inl UndefinedProperty
      | Some node \<Rightarrow>
          (case (node_x node, node_y node) of
             (Some nx, Some ny) \<Rightarrow>
               if nx = 0 \<or> ny = 0 then Inr 1
               else (case map_of nodeMap targetNodeId of
                       None \<Rightarrow> Inl UndefinedProperty
                     | Some target \<Rightarrow>
                         (case (node_x target, node_y target) of
                            (Some tx, Some ty) \<Rightarrow>
                              if tx = 0 \<or> ty = 0 then Inr 1
                              else Inr (\<bar>nx - tx\<bar> + \<bar>ny - ty\<bar>)
                          | _ \<Rightarrow> Inr 1))
           | _ \<Rightarrow> Inr 1))"

record astar_state =
  as_open :: "string list"
  as_closed :: "string list"
  as_gScore :: "score obj"
  as_fScore :: "score obj"
  as_previous :: "string option obj"
  as_steps :: "AlgorithmStep list"
  as_step :: nat

definition as_push ::
  "astar_state \<Rightarrow> string option \<Rightarrow> string list option \<Rightarrow> description \<Rightarrow> astar_state" where
  "as_push st cur p d =
     st\<lparr>as_steps := as_steps st @
           [\<lparr>step = as_step st, visited = as_closed st, current = cur,
             queue = None, stack = None, distances = Some (as_gScore st), path = p,
             description = d\<rparr>],
        as_step := as_step st + 1\<rparr>"

definition as_neighbor ::
  "Node obj \<Rightarrow> string \<Rightarrow> string \<Rightarrow> neighbor \<Rightarrow> astar_state \<Rightarrow> error + astar_state" where
  "as_neighbor nodeMap tgt c n st =
     (if nodeId n \<in> set (as_closed st) then Inr st
      else (let tentativeGScore = add_num (read_score (as_gScore st) c) (weight n) in
            if nodeId n \<in> set (as_open st)
                \<and> ge tentativeGScore (read_score (as_gScore st) (nodeId n))
            then Inr st
            else (case getHeuristic nodeMap tgt (nodeId n) of
                    Inl err \<Rightarrow> Inl err
                  | Inr h \<Rightarrow>
                      Inr (as_push
                             (st\<lparr>as_open := set_add (as_open st) (nodeId n),
                                 as_previous := AList.update (nodeId n) (Some c) (as_previous st),
                                 as_gScore := AList.update (nodeId n) tentativeGScore (as_gScore st),
                                 as_fScore := AList.update (nodeId n) (add_num tentativeGScore h)
                                                (as_fScore st)\<rparr>)
                             (Some c) None
                             (UpdatedNode (nodeId n) tentativeGScore (add_num tentativeGScore h))))))"

fun as_neighbors ::
  "Node obj \<Rightarrow> string \<Rightarrow> string \<Rightarrow> neighbor list \<Rightarrow> astar_state \<Rightarrow> error + astar_state" where
  "as_neighbors nodeMap tgt c [] st = Inr st"
| "as_neighbors nodeMap tgt c (n # ns) st =
     (case as_neighbor nodeMap tgt c n st of
        Inl err \<Rightarrow> Inl err
      | Inr st' \<Rightarrow> as_neighbors nodeMap tgt c ns st')"

definition as_next :: "astar_state \<Rightarrow> astar_state" where
  "as_next st =
     (case fst (min_scan (as_fScore st) (as_open st) (None, Infinity)) of
        None \<Rightarrow> st
      | Some nextNode \<Rightarrow>
          if nextNode = [] then st
          else as_push st (Some nextNode) None
                 (MovingToNodeF nextNode (map_of (as_fScore st) nextNode)))"

lemma as_push_fields [simp]:
  "as_open (as_push st cur p d) = as_open st"
  "as_closed (as_push st cur p d) = as_closed st"
  "as_gScore (as_push st cur p d) = as_gScore st"
  "as_fScore (as_push st cur p d) = as_fScore st"
  "as_previous (as_push st cur p d) = as_previous st"
  "as_step (as_push st cur p d) = as_step st + 1"
  by (simp_all add: as_push_def)

lemma as_next_sets [simp]:
  "as_open (as_next st) = as_open st"
  "as_closed (as_next st) = as_closed st"
  by (simp_all add: as_next_def split: option.splits)

lemma as_neighbor_sets:
  "as_neighbor nodeMap tgt c n st = Inr st' \<Longrightarrow>
   as_closed st' = as_closed st \<and>
   set (as_open st') \<subseteq> set (as_open st) \<union> ({nodeId n} - set (as_closed st))"
  by (auto simp: as_neighbor_def Let_def split: if_splits sum.splits)

lemma as_neighbors_sets:
  "as_neighbors nodeMap tgt c ns st = Inr st' \<Longrightarrow>
   as_closed st' = as_closed st \<and>
   set (as_open st') \<subseteq> set (as_open st) \<union> (nodeId ` set ns - set (as_closed st))"
proof (induction ns arbitrary: st)
  case Nil
  then show ?case by simp
next
  case (Cons n ns)
  from Cons.prems obtain st1 where
    st1: "as_neighbor nodeMap tgt c n st = Inr st1" "as_neighbors nodeMap tgt c ns st1 = Inr st'"
    by (auto split: sum.splits)
  from as_neighbor_sets [OF st1(1)] Cons.IH [OF st1(2)] show ?case
    by auto
qed

lemma set_set_delete [simp]: "set (set_delete s k) = set s - {k}"
  by (auto simp: set_delete_def)

definition astar_measure ::
  "(Node obj \<times> AdjacencyList \<times> string \<times> astar_state) rel" where
  "astar_measure = measures
    [\<lambda>(nodeMap, adj, tgt, st). card ((neighbor_ids adj \<union> set (as_open st)) - set (as_closed st)),
     \<lambda>(nodeMap, adj, tgt, st). card (set (as_open st) \<inter> set (as_closed st))]"

lemma astar_decrease:
  assumes scan: "(x, lowestFScore) = min_scan (as_fScore st) (as_open st) (None, Infinity)"
    and x: "x = Some c"
    and ns: "map_of adj c = Some ns"
    and st': "as_neighbors nodeMap tgt c ns
                (st\<lparr>as_open := set_delete (as_open st) c,
                    as_closed := set_add (as_closed st) c\<rparr>) = Inr st'"
  shows "((nodeMap, adj, tgt, as_next st'), (nodeMap, adj, tgt, st)) \<in> astar_measure"
proof -
  from scan x have c: "c \<in> set (as_open st)"
    using min_scan_in [of "as_fScore st" "as_open st" Infinity c lowestFScore] by simp
  have sub: "nodeId ` set ns \<subseteq> neighbor_ids adj"
    using ns by (rule map_of_neighbor_ids)
  from as_neighbors_sets [OF st']
  have closed: "set (as_closed st') = insert c (set (as_closed st))"
    and opn: "set (as_open st') \<subseteq> (set (as_open st) - {c})
        \<union> (nodeId ` set ns - insert c (set (as_closed st)))"
    by auto
  let ?M = "\<lambda>s. (neighbor_ids adj \<union> set (as_open s)) - set (as_closed s)"
  have fin: "finite (?M st)" by (simp add: finite_neighbor_ids)
  show ?thesis
  proof (cases "c \<in> set (as_closed st)")
    case False
    with c closed opn sub have "?M st' \<subset> ?M st" by auto
    then have "card (?M st') < card (?M st)"
      using fin by (rule psubset_card_mono [rotated])
    then show ?thesis by (simp add: astar_measure_def)
  next
    case True
    with closed opn sub have "?M st' \<subseteq> ?M st" by auto
    then have le: "card (?M st') \<le> card (?M st)"
      using fin by (rule card_mono [rotated])
    from True c closed opn
    have "set (as_open st') \<inter> set (as_closed st') \<subset> set (as_open st) \<inter> set (as_closed st)"
      by auto
    then have "card (set (as_open st') \<inter> set (as_closed st'))
        < card (set (as_open st) \<inter> set (as_closed st))"
      by (intro psubset_card_mono) auto
    with le show ?thesis by (auto simp: astar_measure_def)
  qed
qed

function astar_loop ::
  "Node obj \<Rightarrow> AdjacencyList \<Rightarrow> string \<Rightarrow> astar_state \<Rightarrow> (error + astar_state) option" where
  "astar_loop nodeMap adj tgt st =
     (if as_open st = [] then Some (Inr st)
      else (case min_scan (as_fScore st) (as_open st) (None, Infinity) of
              (None, lowestFScore) \<Rightarrow> Some (Inr st)
            | (Some c, lowestFScore) \<Rightarrow>
                if c = [] then Some (Inr st)
                else if c = tgt
                then (case build_path (as_previous st) (Some c) [] of
                        None \<Rightarrow> None
                      | Some p \<Rightarrow>
                          Some (Inr (as_push st (Some c) (Some p)
                                       (PathFoundWithCost c (map_of (as_gScore st) c)))))
                else (case map_of adj c of
                        None \<Rightarrow> Some (Inl NotIterable)
                      | Some ns \<Rightarrow>
                          (case as_neighbors nodeMap tgt c ns
                                  (st\<lparr>as_open := set_delete (as_open st) c,
                                      as_closed := set_add (as_closed st) c\<rparr>) of
                             Inl err \<Rightarrow> Some (Inl err)
                           | Inr st' \<Rightarrow> astar_loop nodeMap adj tgt (as_next st')))))"
  by pat_completeness auto
termination
proof (relation astar_measure, goal_cases)
  case 1
  then show ?case by (simp add: astar_measure_def)
next
  case 2
  then show ?case by (intro astar_decrease)
qed

declare astar_loop.simps [simp del]

definition as_finish :: "string \<Rightarrow> string \<Rightarrow> astar_state \<Rightarrow> astar_state" where
  "as_finish startNodeId tgt st =
     (if tgt \<notin> set (as_closed st)
      then as_push st None None (NoPathFound startNodeId tgt)
      else st)"

definition as_init :: "Node list \<Rightarrow> string \<Rightarrow> string \<Rightarrow> real \<Rightarrow> astar_state" where
  "as_init nodes startNodeId tgt h =
     as_push
       \<lparr>as_open = [startNodeId], as_closed = [],
        as_gScore = AList.update startNodeId (Num 0) (assign_all Infinity nodes []),
        as_fScore = AList.update startNodeId (Num h) (assign_all Infinity nodes []),
        as_previous = assign_all None nodes [],
        as_steps = [], as_step = 0\<rparr>
       (Some startNodeId) None (StartingAStar startNodeId tgt)"

definition executeAStar ::
  "Node list \<Rightarrow> Edge list \<Rightarrow> string \<Rightarrow> string option \<Rightarrow> (error + AlgorithmResult) option" where
  "executeAStar nodes edges startNodeId targetNodeId =
     (case targetNodeId of
        None \<Rightarrow> Some (Inl MissingTarget)
      | Some tgt \<Rightarrow>
          if tgt = [] then Some (Inl MissingTarget)
          else (case createAdjacencyList nodes edges of
                  Inl err \<Rightarrow> Some (Inl err)
                | Inr adjacencyList \<Rightarrow>
                    (let nodeMap = build_node_map nodes [] in
                     case getHeuristic nodeMap tgt startNodeId of
                       Inl err \<Rightarrow> Some (Inl err)
                     | Inr h \<Rightarrow>
                         (case astar_loop nodeMap adjacencyList tgt
                                 (as_init nodes startNodeId tgt h) of
                            None \<Rightarrow> None
                          | Some (Inl err) \<Rightarrow> Some (Inl err)
                          | Some (Inr st) \<Rightarrow>
                              Some (Inr \<lparr>algorithm = Astar, startNode = startNodeId,
                                         targetNode = targetNodeId,
                                         steps = as_steps (as_finish startNodeId tgt st),
                                         executionTime = 0, timeComplexity = ''O(E log V)'',
                                         spaceComplexity = ''O(V)''\<rparr>)))))"

section \<open>Properties of the adjacency builder\<close>

definition entries :: "AdjacencyList \<Rightarrow> (string \<times> neighbor) set" where
  "entries adj = {(a, n). n \<in> set (neighbors adj a)}"

lemma push_neighbor_Inr:
  assumes "push_neighbor adj k n = Inr adj'"
  shows "k \<in> dom (map_of adj)"
    and "dom (map_of adj') = dom (map_of adj)"
    and "entries adj' = insert (k, n) (entries adj)"
proof -
  from assms obtain ns where ns: "map_of adj k = Some ns"
    and adj': "adj' = AList.update k (ns @ [n]) adj"
    by (auto simp: push_neighbor_def split: option.splits)
  show "k \<in> dom (map_of adj)" using ns by auto
  show "dom (map_of adj') = dom (map_of adj)"
    using ns by (auto simp: adj' update_conv' split: if_splits)
  show "entries adj' = insert (k, n) (entries adj)"
    using ns by (auto simp: adj' entries_def neighbors_def update_conv' split: if_splits option.splits)
qed

lemma push_neighbor_Inl:
  "push_neighbor adj k n = Inl err \<Longrightarrow> err = UnknownNodeReference \<and> k \<notin> dom (map_of adj)"
  by (auto simp: push_neighbor_def split: option.splits)

lemma push_neighbor_total:
  "k \<in> dom (map_of adj) \<Longrightarrow> \<exists>adj'. push_neighbor adj k n = Inr adj'"
  by (auto simp: push_neighbor_def split: option.splits)

definition edge_entries :: "Edge \<Rightarrow> (string \<times> neighbor) set" where
  "edge_entries e =
     {(edge_source e, \<lparr>nodeId = edge_target e, weight = effective_weight (edge_weight e)\<rparr>),
      (edge_target e, \<lparr>nodeId = edge_source e, weight = effective_weight (edge_weight e)\<rparr>)}"

definition edges_known :: "string set \<Rightarrow> Edge list \<Rightarrow> bool" where
  "edges_known ids es = list_all (\<lambda>e. edge_source e \<in> ids \<and> edge_target e \<in> ids) es"

lemma add_edges_Inr:
  "add_edges adj es = Inr adj' \<Longrightarrow>
   dom (map_of adj') = dom (map_of adj) \<and>
   entries adj' = entries adj \<union> (\<Union>e \<in> set es. edge_entries e) \<and>
   edges_known (dom (map_of adj)) es"
proof (induction es arbitrary: adj)
  case Nil
  then show ?case by (simp add: edges_known_def)
next
  case (Cons e es)
  let ?w = "effective_weight (edge_weight e)"
  from Cons.prems obtain adj1 adj2 where
    p1: "push_neighbor adj (edge_source e) \<lparr>nodeId = edge_target e, weight = ?w\<rparr> = Inr adj1"
    and p2: "push_neighbor adj1 (edge_target e) \<lparr>nodeId = edge_source e, weight = ?w\<rparr> = Inr adj2"
    and rest: "add_edges adj2 es = Inr adj'"
    by (auto simp: Let_def split: sum.splits)
  note a = push_neighbor_Inr [OF p1] and b = push_neighbor_Inr [OF p2] and c = Cons.IH [OF rest]
  from a b c show ?case
    by (auto simp: edge_entries_def edges_known_def)
qed

lemma add_edges_Inl:
  "add_edges adj es = Inl err \<Longrightarrow> err = UnknownNodeReference \<and> \<not> edges_known (dom (map_of adj)) es"
proof (induction es arbitrary: adj)
  case Nil
  then show ?case by simp
next
  case (Cons e es)
  let ?w = "effective_weight (edge_weight e)"
  show ?case
  proof (cases "push_neighbor adj (edge_source e) \<lparr>nodeId = edge_target e, weight = ?w\<rparr>")
    case (Inl x)
    with Cons.prems push_neighbor_Inl [OF Inl] show ?thesis
      by (auto simp: Let_def edges_known_def)
  next
    case (Inr adj1)
    note a = push_neighbor_Inr [OF Inr]
    show ?thesis
    proof (cases "push_neighbor adj1 (edge_target e) \<lparr>nodeId = edge_source e, weight = ?w\<rparr>")
      case (Inl x)
      with Cons.prems Inr push_neighbor_Inl [OF Inl] a show ?thesis
        by (auto simp: Let_def edges_known_def)
    next
      case (Inr adj2)
      note b = push_neighbor_Inr [OF Inr]
      from Cons.prems \<open>push_neighbor adj _ _ = Inr adj1\<close> Inr
      have "add_edges adj2 es = Inl err" by (simp add: Let_def)
      from Cons.IH [OF this] a b show ?thesis
        by (auto simp: edges_known_def)
    qed
  qed
qed

lemma map_of_init_adjacency:
  "map_of (init_adjacency adj ns) k =
     (if k \<in> node_id ` set ns then Some [] else map_of adj k)"
  by (induction ns arbitrary: adj) (auto simp: update_conv')

definition node_ids :: "Node list \<Rightarrow> string set" where
  "node_ids nodes = node_id ` set nodes"

lemma dom_init_adjacency: "dom (map_of (init_adjacency [] nodes)) = node_ids nodes"
  by (auto simp: map_of_init_adjacency node_ids_def split: if_splits)

lemma entries_init_adjacency: "entries (init_adjacency [] nodes) = {}"
  by (auto simp: entries_def neighbors_def map_of_init_adjacency split: option.splits if_splits)

lemma createAdjacencyList_Inr:
  assumes "createAdjacencyList nodes edges = Inr adj"
  shows "dom (map_of adj) = node_ids nodes"
    and "entries adj = (\<Union>e \<in> set edges. edge_entries e)"
    and "edges_known (node_ids nodes) edges"
  using add_edges_Inr [of "init_adjacency [] nodes" edges adj] assms
  by (simp_all add: createAdjacencyList_def dom_init_adjacency entries_init_adjacency)

lemma createAdjacencyList_Inl:
  "createAdjacencyList nodes edges = Inl err \<Longrightarrow>
   err = UnknownNodeReference \<and> \<not> edges_known (node_ids nodes) edges"
  using add_edges_Inl [of "init_adjacency [] nodes" edges err]
  by (simp add: createAdjacencyList_def dom_init_adjacency)

lemma createAdjacencyList_known:
  "edges_known (node_ids nodes) edges \<Longrightarrow> \<exists>adj. createAdjacencyList nodes edges = Inr adj"
  using createAdjacencyList_Inl [of nodes edges] by (cases "createAdjacencyList nodes edges") auto

lemma createAdjacencyList_unknown:
  "\<not> edges_known (node_ids nodes) edges \<Longrightarrow> createAdjacencyList nodes edges = Inl UnknownNodeReference"
  using createAdjacencyList_Inl [of nodes edges] createAdjacencyList_Inr(3) [of nodes edges]
  by (cases "createAdjacencyList nodes edges") auto

section \<open>Rules for the loops\<close>

lemma bfs_loop_rule:
  assumes "bfs_loop adj tgt st = Inr st'"
    and "I st"
    and "\<And>st c q ns. I st \<Longrightarrow> bfs_queue st = c # q \<Longrightarrow>
        \<not> (truthy_string tgt \<and> tgt = Some c) \<Longrightarrow> map_of adj c = Some ns \<Longrightarrow>
        I (bfs_advance (bfs_neighbors c ns (st\<lparr>bfs_queue := q\<rparr>)))"
    and "\<And>st. I st \<Longrightarrow> bfs_queue st = [] \<Longrightarrow> Q st"
    and "\<And>st c q. I st \<Longrightarrow> bfs_queue st = c # q \<Longrightarrow> truthy_string tgt \<Longrightarrow>
        tgt = Some c \<Longrightarrow> Q (bfs_push (st\<lparr>bfs_queue := q\<rparr>) (Some c) (TargetReached c))"
  shows "Q st'"
  using assms
proof (induction adj tgt st rule: bfs_loop.induct)
  case (1 adj tgt st)
  note run = "1.prems"(1) and init = "1.prems"(2) and iter = "1.prems"(3)
    and finish = "1.prems"(4) and hit = "1.prems"(5)
  show ?case
  proof (cases "bfs_queue st")
    case Nil
    with run have "st' = st" by (simp add: bfs_loop.simps [of adj tgt st])
    with Nil init finish show ?thesis by simp
  next
    case (Cons c q)
    show ?thesis
    proof (cases "truthy_string tgt \<and> tgt = Some c")
      case True
      then have t: "truthy_string tgt" "tgt = Some c" by blast+
      have "bfs_loop adj tgt st = Inr (bfs_push (st\<lparr>bfs_queue := q\<rparr>) (Some c) (TargetReached c))"
        unfolding bfs_loop.simps [of adj tgt st] using Cons t by simp
      with run have st': "st' = bfs_push (st\<lparr>bfs_queue := q\<rparr>) (Some c) (TargetReached c)"
        by simp
      show ?thesis unfolding st' by (rule hit [OF init Cons t])
    next
      case False
      then have nt: "\<not> (truthy_string tgt \<and> Some c = tgt)" by auto
      with Cons run obtain ns where ns: "map_of adj c = Some ns"
        and rec: "bfs_loop adj tgt (bfs_advance (bfs_neighbors c ns (st\<lparr>bfs_queue := q\<rparr>))) = Inr st'"
        by (auto simp: bfs_loop.simps [of adj tgt st] split: option.splits)
      from iter [OF init Cons False ns]
      show ?thesis by (rule "1.IH" [OF Cons nt ns rec _ iter finish hit])
    qed
  qed
qed

lemma dfs_loop_rule:
  assumes "dfs_loop adj tgt st = Inr st'"
    and "I st"
    and "\<And>st. I st \<Longrightarrow> dfs_stack st \<noteq> [] \<Longrightarrow>
        last (dfs_stack st) \<in> set (dfs_visited st) \<Longrightarrow>
        I (st\<lparr>dfs_stack := butlast (dfs_stack st)\<rparr>)"
    and "\<And>st ns. I st \<Longrightarrow> dfs_stack st \<noteq> [] \<Longrightarrow>
        last (dfs_stack st) \<notin> set (dfs_visited st) \<Longrightarrow>
        \<not> (truthy_string tgt \<and> tgt = Some (last (dfs_stack st))) \<Longrightarrow>
        map_of adj (last (dfs_stack st)) = Some ns \<Longrightarrow>
        I (dfs_neighbors (last (dfs_stack st)) (rev ns)
             (dfs_push (st\<lparr>dfs_stack := butlast (dfs_stack st),
                           dfs_visited := set_add (dfs_visited st) (last (dfs_stack st))\<rparr>)
                (Some (last (dfs_stack st))) (Visiting (last (dfs_stack st)))))"
    and "\<And>st. I st \<Longrightarrow> dfs_stack st = [] \<Longrightarrow> Q st"
    and "\<And>st. I st \<Longrightarrow> dfs_stack st \<noteq> [] \<Longrightarrow>
        last (dfs_stack st) \<notin> set (dfs_visited st) \<Longrightarrow> truthy_string tgt \<Longrightarrow>
        tgt = Some (last (dfs_stack st)) \<Longrightarrow>
        Q (dfs_push
             (dfs_push (st\<lparr>dfs_stack := butlast (dfs_stack st),
                           dfs_visited := set_add (dfs_visited st) (last (dfs_stack st))\<rparr>)
                (Some (last (dfs_stack st))) (Visiting (last (dfs_stack st))))
             (Some (last (dfs_stack st))) (TargetReached (last (dfs_stack st))))"
  shows "Q st'"
  using assms
proof (induction adj tgt st rule: dfs_loop.induct)
  case (1 adj tgt st)
  note run = "1.prems"(1) and init = "1.prems"(2) and pop = "1.prems"(3)
    and iter = "1.prems"(4) and finish = "1.prems"(5) and hit = "1.prems"(6)
  show ?case
  proof (cases "dfs_stack st = []")
    case True
    with run have "st' = st" by (simp add: dfs_loop.simps [of adj tgt st])
    with True init finish show ?thesis by simp
  next
    case ne: False
    show ?thesis
    proof (cases "last (dfs_stack st) \<in> set (dfs_visited st)")
      case True
      with ne run have rec: "dfs_loop adj tgt (st\<lparr>dfs_stack := butlast (dfs_stack st)\<rparr>) = Inr st'"
        by (simp add: dfs_loop.simps [of adj tgt st])
      from pop [OF init ne True] show ?thesis
        by (rule "1.IH"(1) [OF ne True rec _ pop iter finish hit])
    next
      case nv: False
      show ?thesis
      proof (cases "truthy_string tgt \<and> tgt = Some (last (dfs_stack st))")
        case True
        then have t: "truthy_string tgt" "tgt = Some (last (dfs_stack st))" by blast+
        have "dfs_loop adj tgt st = Inr (dfs_push
             (dfs_push (st\<lparr>dfs_stack := butlast (dfs_stack st),
                           dfs_visited := set_add (dfs_visited st) (last (dfs_stack st))\<rparr>)
                (Some (last (dfs_stack st))) (Visiting (last (dfs_stack st))))
             (Some (last (dfs_stack st))) (TargetReached (last (dfs_stack st))))"
          unfolding dfs_loop.simps [of adj tgt st] using ne nv t by simp
        with run have st': "st' = dfs_push
             (dfs_push (st\<lparr>dfs_stack := butlast (dfs_stack st),
                           dfs_visited := set_add (dfs_visited st) (last (dfs_stack st))\<rparr>)
                (Some (last (dfs_stack st))) (Visiting (last (dfs_stack st))))
             (Some (last (dfs_stack st))) (TargetReached (last (dfs_stack st)))"
          by simp
        show ?thesis unfolding st' by (rule hit [OF init ne nv t])
      next
        case False
        then have nt: "\<not> (truthy_string tgt \<and> Some (last (dfs_stack st)) = tgt)" by auto
        with ne nv run obtain ns where ns: "map_of adj (last (dfs_stack st)) = Some ns"
          and rec: "dfs_loop adj tgt (dfs_neighbors (last (dfs_stack st)) (rev ns)
             (dfs_push (st\<lparr>dfs_stack := butlast (dfs_stack st),
                           dfs_visited := set_add (dfs_visited st) (last (dfs_stack st))\<rparr>)
                (Some (last (dfs_stack st))) (Visiting (last (dfs_stack st))))) = Inr st'"
          by (auto simp: dfs_loop.simps [of adj tgt st] split: option.splits)
        from iter [OF init ne nv False ns] show ?thesis
          by (rule "1.IH"(2) [OF ne nv nt ns rec _ pop iter finish hit])
      qed
    qed
  qed
qed

definition dj_exhausted :: "dijkstra_state \<Rightarrow> bool" where
  "dj_exhausted st =
     (dj_unvisited st = [] \<or>
      (case min_scan (dj_distances st) (dj_unvisited st) (None, Infinity) of
         (None, shortestDistance) \<Rightarrow> True
       | (Some c, shortestDistance) \<Rightarrow> c = [] \<or> shortestDistance = Infinity))"

lemma dijkstra_loop_rule:
  assumes "dijkstra_loop nodes adj tgt st = Some (Inr st')"
    and "I st"
    and "\<And>st c sd ns. I st \<Longrightarrow> dj_unvisited st \<noteq> [] \<Longrightarrow>
        min_scan (dj_distances st) (dj_unvisited st) (None, Infinity) = (Some c, sd) \<Longrightarrow>
        c \<noteq> [] \<Longrightarrow> sd \<noteq> Infinity \<Longrightarrow> \<not> (truthy_string tgt \<and> tgt = Some c) \<Longrightarrow>
        map_of adj c = Some ns \<Longrightarrow>
        I (dj_next nodes (dj_neighbors nodes c ns
             (st\<lparr>dj_unvisited := set_delete (dj_unvisited st) c\<rparr>)))"
    and "\<And>st. I st \<Longrightarrow> dj_exhausted st \<Longrightarrow> Q st"
    and "\<And>st c sd p. I st \<Longrightarrow> dj_unvisited st \<noteq> [] \<Longrightarrow>
        min_scan (dj_distances st) (dj_unvisited st) (None, Infinity) = (Some c, sd) \<Longrightarrow>
        c \<noteq> [] \<Longrightarrow> sd \<noteq> Infinity \<Longrightarrow> truthy_string tgt \<Longrightarrow> tgt = Some c \<Longrightarrow>
        build_path (dj_previous st) (Some c) [] = Some p \<Longrightarrow>
        Q (dj_push nodes (st\<lparr>dj_unvisited := set_delete (dj_unvisited st) c\<rparr>)
             (Some c) (Some p) (TargetReachedWithDistance c (map_of (dj_distances st) c)))"
  shows "Q st'"
  using assms
proof (induction nodes adj tgt st rule: dijkstra_loop.induct)
  case (1 nodes adj tgt st)
  note run = "1.prems"(1) and init = "1.prems"(2) and iter = "1.prems"(3)
    and finish = "1.prems"(4) and hit = "1.prems"(5)
  obtain x sd where scan: "min_scan (dj_distances st) (dj_unvisited st) (None, Infinity) = (x, sd)"
    by (cases "min_scan (dj_distances st) (dj_unvisited st) (None, Infinity)")
  have unfold: "dijkstra_loop nodes adj tgt st =
     (if dj_unvisited st = [] then Some (Inr st)
      else (case x of
              None \<Rightarrow> Some (Inr st)
            | Some c \<Rightarrow>
                if c = [] \<or> sd = Infinity then Some (Inr st)
                else if truthy_string tgt \<and> Some c = tgt
                then (case build_path (dj_previous st) (Some c) [] of
                        None \<Rightarrow> None
                      | Some p \<Rightarrow>
                          Some (Inr (dj_push nodes
                                       (st\<lparr>dj_unvisited := set_delete (dj_unvisited st) c\<rparr>)
                                       (Some c) (Some p)
                                       (TargetReachedWithDistance c (map_of (dj_distances st) c)))))
                else (case map_of adj c of
                        None \<Rightarrow> Some (Inl NotIterable)
                      | Some ns \<Rightarrow>
                          dijkstra_loop nodes adj tgt
                            (dj_next nodes
                               (dj_neighbors nodes c ns
                                  (st\<lparr>dj_unvisited := set_delete (dj_unvisited st) c\<rparr>))))))"
    by (subst dijkstra_loop.simps) (simp add: scan cong: if_cong)
  show ?case
  proof (cases "dj_exhausted st")
    case True
    with scan have "dijkstra_loop nodes adj tgt st = Some (Inr st)"
      unfolding unfold by (auto simp: dj_exhausted_def split: option.splits)
    with run have "st' = st" by simp
    with True init finish show ?thesis by simp
  next
    case False
    with scan obtain c where ne: "dj_unvisited st \<noteq> []" and x: "x = Some c"
      and c: "c \<noteq> []" and sd: "sd \<noteq> Infinity"
      by (auto simp: dj_exhausted_def split: option.splits)
    note scan' = scan [unfolded x]
    have csd: "\<not> (c = [] \<or> sd = Infinity)" using c sd by simp
    show ?thesis
    proof (cases "truthy_string tgt \<and> tgt = Some c")
      case True
      then have t: "truthy_string tgt" "tgt = Some c" by blast+
      from run obtain p where
        p: "build_path (dj_previous st) (Some c) [] = Some p"
        unfolding unfold using ne x c sd t by (auto split: option.splits)
      have "dijkstra_loop nodes adj tgt st =
          Some (Inr (dj_push nodes (st\<lparr>dj_unvisited := set_delete (dj_unvisited st) c\<rparr>)
             (Some c) (Some p) (TargetReachedWithDistance c (map_of (dj_distances st) c))))"
        unfolding unfold using ne x c sd t p by simp
      with run have st': "st' = dj_push nodes (st\<lparr>dj_unvisited := set_delete (dj_unvisited st) c\<rparr>)
             (Some c) (Some p) (TargetReachedWithDistance c (map_of (dj_distances st) c))"
        by simp
      show ?thesis unfolding st' by (rule hit [OF init ne scan' c sd t p])
    next
      case False
      then have nt: "\<not> (truthy_string tgt \<and> Some c = tgt)" by auto
      from run obtain ns where ns: "map_of adj c = Some ns"
        and rec: "dijkstra_loop nodes adj tgt (dj_next nodes (dj_neighbors nodes c ns
             (st\<lparr>dj_unvisited := set_delete (dj_unvisited st) c\<rparr>))) = Some (Inr st')"
        unfolding unfold using ne x c sd nt by (auto split: option.splits)
      from iter [OF init ne scan' c sd False ns] show ?thesis
        by (rule "1.IH" [OF ne scan' [symmetric] refl csd nt ns rec _ iter finish hit])
    qed
  qed
qed

lemma astar_loop_rule:
  assumes "astar_loop nodeMap adj tgt st = Some (Inr st')"
    and "I st"
    and "\<And>st c sd ns st2. I st \<Longrightarrow> as_open st \<noteq> [] \<Longrightarrow>
        min_scan (as_fScore st) (as_open st) (None, Infinity) = (Some c, sd) \<Longrightarrow>
        c \<noteq> [] \<Longrightarrow> c \<noteq> tgt \<Longrightarrow> map_of adj c = Some ns \<Longrightarrow>
        as_neighbors nodeMap tgt c ns
          (st\<lparr>as_open := set_delete (as_open st) c,
              as_closed := set_add (as_closed st) c\<rparr>) = Inr st2 \<Longrightarrow>
        I (as_next st2)"
    and "\<And>st. I st \<Longrightarrow>
        as_open st = [] \<or> \<not> truthy_string (fst (min_scan (as_fScore st) (as_open st) (None, Infinity))) \<Longrightarrow>
        Q st"
    and "\<And>st sd p. I st \<Longrightarrow> as_open st \<noteq> [] \<Longrightarrow>
        min_scan (as_fScore st) (as_open st) (None, Infinity) = (Some tgt, sd) \<Longrightarrow>
        tgt \<noteq> [] \<Longrightarrow> build_path (as_previous st) (Some tgt) [] = Some p \<Longrightarrow>
        Q (as_push st (Some tgt) (Some p) (PathFoundWithCost tgt (map_of (as_gScore st) tgt)))"
  shows "Q st'"
  using assms
proof (induction nodeMap adj tgt st rule: astar_loop.induct)
  case (1 nodeMap adj tgt st)
  note run = "1.prems"(1) and init = "1.prems"(2) and iter = "1.prems"(3)
    and finish = "1.prems"(4) and hit = "1.prems"(5)
  obtain x sd where scan: "min_scan (as_fScore st) (as_open st) (None, Infinity) = (x, sd)"
    by (cases "min_scan (as_fScore st) (as_open st) (None, Infinity)")
  have unfold: "astar_loop nodeMap adj tgt st =
     (if as_open st = [] then Some (Inr st)
      else (case x of
              None \<Rightarrow> Some (Inr st)
            | Some c \<Rightarrow>
                if c = [] then Some (Inr st)
                else if c = tgt
                then (case build_path (as_previous st) (Some c) [] of
                        None \<Rightarrow> None
                      | Some p \<Rightarrow>
                          Some (Inr (as_push st (Some c) (Some p)
                                       (PathFoundWithCost c (map_of (as_gScore st) c)))))
                else (case map_of adj c of
                        None \<Rightarrow> Some (Inl NotIterable)
                      | Some ns \<Rightarrow>
                          (case as_neighbors nodeMap tgt c ns
                                  (st\<lparr>as_open := set_delete (as_open st) c,
                                      as_closed := set_add (as_closed st) c\<rparr>) of
                             Inl err \<Rightarrow> Some (Inl err)
                           | Inr st' \<Rightarrow> astar_loop nodeMap adj tgt (as_next st')))))"
    by (subst astar_loop.simps) (simp add: scan cong: if_cong)
  show ?case
  proof (cases "as_open st = [] \<or> \<not> truthy_string x")
    case True
    then have "astar_loop nodeMap adj tgt st = Some (Inr st)"
      unfolding unfold by (auto simp: truthy_string_def split: option.splits)
    with run have "st' = st" by simp
    with True scan init finish [of st] show ?thesis by simp
  next
    case False
    then obtain c where ne: "as_open st \<noteq> []" and x: "x = Some c" and c: "c \<noteq> []"
      by (auto simp: truthy_string_def split: option.splits)
    note scan' = scan [unfolded x]
    show ?thesis
    proof (cases "c = tgt")
      case True
      from run obtain p where
        p: "build_path (as_previous st) (Some c) [] = Some p"
        unfolding unfold using ne x c True by (auto split: option.splits)
      have "astar_loop nodeMap adj tgt st =
         Some (Inr (as_push st (Some c) (Some p) (PathFoundWithCost c (map_of (as_gScore st) c))))"
        unfolding unfold using ne x c True p by simp
      with run have st': "st' = as_push st (Some c) (Some p)
          (PathFoundWithCost c (map_of (as_gScore st) c))"
        by simp
      show ?thesis unfolding st' True
        by (rule hit [OF init ne scan' [unfolded True] c [unfolded True] p [unfolded True]])
    next
      case nt: False
      from run obtain ns st2 where ns: "map_of adj c = Some ns"
        and st2: "as_neighbors nodeMap tgt c ns
          (st\<lparr>as_open := set_delete (as_open st) c,
              as_closed := set_add (as_closed st) c\<rparr>) = Inr st2"
        and rec: "astar_loop nodeMap adj tgt (as_next st2) = Some (Inr st')"
        unfolding unfold using ne x c nt by (auto split: option.splits sum.splits)
      from iter [OF init ne scan' c nt ns st2] show ?thesis
        by (rule "1.IH" [OF ne scan' [symmetric] refl c nt ns st2 rec _ iter finish hit])
    qed
  qed
qed

section \<open>Step indices\<close>

definition indexed :: "AlgorithmStep list \<Rightarrow> nat \<Rightarrow> bool" where
  "indexed ss n = (length ss = n \<and> (\<forall>i<n. step (ss ! i) = i))"

lemma indexed_snoc: "indexed ss n \<Longrightarrow> step x = n \<Longrightarrow> indexed (ss @ [x]) (Suc n)"
  by (auto simp: indexed_def nth_append less_Suc_eq)

definition bfs_indexed :: "bfs_state \<Rightarrow> bool" where
  "bfs_indexed st = indexed (bfs_steps st) (bfs_step st)"

definition dfs_indexed :: "dfs_state \<Rightarrow> bool" where
  "dfs_indexed st = indexed (dfs_steps st) (dfs_step st)"

definition dj_indexed :: "dijkstra_state \<Rightarrow> bool" where
  "dj_indexed st = indexed (dj_steps st) (dj_step st)"

definition as_indexed :: "astar_state \<Rightarrow> bool" where
  "as_indexed st = indexed (as_steps st) (as_step st)"

lemma bfs_indexed_update [simp]:
  "bfs_indexed (st\<lparr>bfs_queue := q\<rparr>) = bfs_indexed st"
  "bfs_indexed (st\<lparr>bfs_visited := v\<rparr>) = bfs_indexed st"
  by (simp_all add: bfs_indexed_def)

lemma bfs_indexed_push: "bfs_indexed st \<Longrightarrow> bfs_indexed (bfs_push st cur d)"
  by (simp add: bfs_indexed_def bfs_push_def indexed_snoc)

lemma bfs_indexed_discover: "bfs_indexed st \<Longrightarrow> bfs_indexed (bfs_discover c n st)"
  by (simp add: bfs_discover_def bfs_indexed_push)

lemma bfs_indexed_neighbors: "bfs_indexed st \<Longrightarrow> bfs_indexed (bfs_neighbors c ns st)"
  by (induction ns arbitrary: st) (simp_all add: bfs_indexed_discover)

lemma bfs_indexed_advance: "bfs_indexed st \<Longrightarrow> bfs_indexed (bfs_advance st)"
  by (simp add: bfs_advance_def bfs_indexed_push split: list.splits)

lemma bfs_indexed_loop:
  assumes "bfs_loop adj tgt st = Inr st'" "bfs_indexed st"
  shows "bfs_indexed st'"
  by (rule bfs_loop_rule [where I = bfs_indexed, OF assms])
     (simp_all add: bfs_indexed_advance bfs_indexed_neighbors bfs_indexed_push)

lemma indexed_executeBFS:
  assumes "executeBFS nodes edges s t = Inr r"
  shows "indexed (steps r) (length (steps r))"
proof -
  from assms obtain adj st where
    run: "bfs_loop adj t (bfs_init s) = Inr st"
    and r: "steps r = bfs_steps st"
    by (auto simp: executeBFS_def split: sum.splits)
  have "bfs_indexed st"
    by (rule bfs_indexed_loop [OF run]) (simp add: bfs_indexed_def bfs_init_def bfs_push_def indexed_def)
  then show ?thesis by (simp add: r indexed_def bfs_indexed_def)
qed

lemma dfs_indexed_update [simp]:
  "dfs_indexed (st\<lparr>dfs_stack := q\<rparr>) = dfs_indexed st"
  "dfs_indexed (st\<lparr>dfs_visited := v\<rparr>) = dfs_indexed st"
  by (simp_all add: dfs_indexed_def)

lemma dfs_indexed_push: "dfs_indexed st \<Longrightarrow> dfs_indexed (dfs_push st cur d)"
  by (simp add: dfs_indexed_def dfs_push_def indexed_snoc)

lemma dfs_indexed_add: "dfs_indexed st \<Longrightarrow> dfs_indexed (dfs_add c n st)"
  by (simp add: dfs_add_def dfs_indexed_push)

lemma dfs_indexed_neighbors: "dfs_indexed st \<Longrightarrow> dfs_indexed (dfs_neighbors c ns st)"
  by (induction ns arbitrary: st) (simp_all add: dfs_indexed_add)

lemma dfs_indexed_loop:
  assumes "dfs_loop adj tgt st = Inr st'" "dfs_indexed st"
  shows "dfs_indexed st'"
  by (rule dfs_loop_rule [where I = dfs_indexed, OF assms])
     (simp_all add: dfs_indexed_neighbors dfs_indexed_push)

lemma indexed_executeDFS:
  assumes "executeDFS nodes edges s t = Inr r"
  shows "indexed (steps r) (length (steps r))"
proof -
  from assms obtain adj st where
    run: "dfs_loop adj t (dfs_init s) = Inr st"
    and r: "steps r = dfs_steps st"
    by (auto simp: executeDFS_def split: sum.splits)
  have "dfs_indexed st"
    by (rule dfs_indexed_loop [OF run]) (simp add: dfs_indexed_def dfs_init_def dfs_push_def indexed_def)
  then show ?thesis by (simp add: r indexed_def dfs_indexed_def)
qed

lemma dj_indexed_update [simp]:
  "dj_indexed (st\<lparr>dj_unvisited := u\<rparr>) = dj_indexed st"
  "dj_indexed (st\<lparr>dj_distances := ds\<rparr>) = dj_indexed st"
  "dj_indexed (st\<lparr>dj_previous := pv\<rparr>) = dj_indexed st"
  by (simp_all add: dj_indexed_def)

lemma dj_indexed_push: "dj_indexed st \<Longrightarrow> dj_indexed (dj_push nodes st cur p d)"
  by (simp add: dj_indexed_def dj_push_def indexed_snoc)

lemma dj_indexed_relax: "dj_indexed st \<Longrightarrow> dj_indexed (dj_relax nodes c n st)"
  by (simp add: dj_relax_def Let_def dj_indexed_push)

lemma dj_indexed_neighbors: "dj_indexed st \<Longrightarrow> dj_indexed (dj_neighbors nodes c ns st)"
  by (induction ns arbitrary: st) (simp_all add: dj_indexed_relax)

lemma dj_indexed_next: "dj_indexed st \<Longrightarrow> dj_indexed (dj_next nodes st)"
  by (simp add: dj_next_def dj_indexed_push split: option.splits)

lemma dj_indexed_loop:
  assumes "dijkstra_loop nodes adj tgt st = Some (Inr st')" "dj_indexed st"
  shows "dj_indexed st'"
  by (rule dijkstra_loop_rule [where I = dj_indexed, OF assms])
     (simp_all add: dj_indexed_next dj_indexed_neighbors dj_indexed_push)

lemma dj_indexed_final:
  assumes "dj_final nodes tgt st = Some (Inr st')" "dj_indexed st"
  shows "dj_indexed st'"
  using assms by (auto simp: dj_final_def dj_indexed_push split: option.splits if_splits)

lemma indexed_executeDijkstra:
  assumes "executeDijkstra nodes edges s t = Some (Inr r)"
  shows "indexed (steps r) (length (steps r))"
proof -
  from assms obtain adj st st' where
    run: "dijkstra_loop nodes adj t (dj_init nodes s) = Some (Inr st)"
    and fin: "dj_final nodes t st = Some (Inr st')"
    and r: "steps r = dj_steps st'"
    by (auto simp: executeDijkstra_def split: sum.splits option.splits)
  have "dj_indexed (dj_init nodes s)"
    by (simp add: dj_indexed_def dj_init_def Let_def indexed_def)
  then have "dj_indexed st"
    by (rule dj_indexed_loop [OF run])
  then have "dj_indexed st'"
    by (rule dj_indexed_final [OF fin])
  then show ?thesis by (simp add: r indexed_def dj_indexed_def)
qed

lemma as_indexed_update [simp]:
  "as_indexed (st\<lparr>as_open := u\<rparr>) = as_indexed st"
  "as_indexed (st\<lparr>as_closed := u\<rparr>) = as_indexed st"
  "as_indexed (st\<lparr>as_gScore := ds\<rparr>) = as_indexed st"
  "as_indexed (st\<lparr>as_fScore := ds\<rparr>) = as_indexed st"
  "as_indexed (st\<lparr>as_previous := pv\<rparr>) = as_indexed st"
  by (simp_all add: as_indexed_def)

lemma as_indexed_push: "as_indexed st \<Longrightarrow> as_indexed (as_push st cur p d)"
  by (simp add: as_indexed_def as_push_def indexed_snoc)

lemma as_indexed_neighbor:
  "as_neighbor nodeMap tgt c n st = Inr st' \<Longrightarrow> as_indexed st \<Longrightarrow> as_indexed st'"
  unfolding as_neighbor_def Let_def
  by (auto simp: as_indexed_push split: if_splits sum.splits)

lemma as_indexed_neighbors:
  "as_neighbors nodeMap tgt c ns st = Inr st' \<Longrightarrow> as_indexed st \<Longrightarrow> as_indexed st'"
proof (induction ns arbitrary: st)
  case Nil
  then show ?case by simp
next
  case (Cons n ns)
  from Cons.prems(1) obtain st1 where
    st1: "as_neighbor nodeMap tgt c n st = Inr st1" "as_neighbors nodeMap tgt c ns st1 = Inr st'"
    by (auto split: sum.splits)
  from as_indexed_neighbor [OF st1(1) Cons.prems(2)] show ?case
    by (rule Cons.IH [OF st1(2)])
qed

lemma as_indexed_next: "as_indexed st \<Longrightarrow> as_indexed (as_next st)"
  by (simp add: as_next_def as_indexed_push split: option.splits)

lemma as_indexed_loop:
  assumes "astar_loop nodeMap adj tgt st = Some (Inr st')" "as_indexed st"
  shows "as_indexed st'"
proof (rule astar_loop_rule [where I = as_indexed, OF assms])
  fix s c sd ns st2
  assume "as_indexed s"
    and "as_neighbors nodeMap tgt c ns
          (s\<lparr>as_open := set_delete (as_open s) c, as_closed := set_add (as_closed s) c\<rparr>) = Inr st2"
  then have "as_indexed st2"
    using as_indexed_neighbors by fastforce
  then show "as_indexed (as_next st2)"
    by (rule as_indexed_next)
qed (simp_all add: as_indexed_push)

lemma indexed_executeAStar:
  assumes "executeAStar nodes edges s t = Some (Inr r)"
  shows "indexed (steps r) (length (steps r))"
proof -
  from assms obtain tgt adj h st where
    run: "astar_loop (build_node_map nodes []) adj tgt (as_init nodes s tgt h) = Some (Inr st)"
    and r: "steps r = as_steps (as_finish s tgt st)"
    by (auto simp: executeAStar_def Let_def split: sum.splits option.splits if_splits)
  have "as_indexed st"
    by (rule as_indexed_loop [OF run]) (simp add: as_indexed_def as_init_def as_push_def indexed_def)
  then have "as_indexed (as_finish s tgt st)"
    by (simp add: as_finish_def as_indexed_push)
  then show ?thesis by (simp add: r indexed_def as_indexed_def)
qed

section \<open>Traversals and the connected component\<close>

definition linked :: "Edge list \<Rightarrow> (string \<times> string) set" where
  "linked edges =
     {(a, b). \<exists>e \<in> set edges. (edge_source e = a \<and> edge_target e = b) \<or>
                                (edge_source e = b \<and> edge_target e = a)}"

definition component :: "Edge list \<Rightarrow> string \<Rightarrow> string set" where
  "component edges s = {v. (s, v) \<in> (linked edges)\<^sup>*}"

definition edge_rel :: "AdjacencyList \<Rightarrow> (string \<times> string) set" where
  "edge_rel adj = {(a, b). b \<in> nodeId ` set (neighbors adj a)}"

lemma edge_rel_linked:
  assumes "createAdjacencyList nodes edges = Inr adj"
  shows "edge_rel adj = linked edges"
proof -
  have ent: "entries adj = (\<Union>e \<in> set edges. edge_entries e)"
    using assms by (rule createAdjacencyList_Inr)
  have "edge_rel adj = (\<lambda>(a, n). (a, nodeId n)) ` entries adj"
    by (force simp: edge_rel_def entries_def)
  also have "\<dots> = linked edges"
    unfolding ent by (force simp: linked_def edge_entries_def)
  finally show ?thesis .
qed

lemma component_start: "s \<in> component edges s"
  by (simp add: component_def)

lemma component_step: "v \<in> component edges s \<Longrightarrow> (v, b) \<in> linked edges \<Longrightarrow> b \<in> component edges s"
  by (auto simp: component_def intro: rtrancl_into_rtrancl)

lemma component_least:
  assumes "s \<in> V" and "\<And>v b. v \<in> V \<Longrightarrow> (v, b) \<in> linked edges \<Longrightarrow> b \<in> V"
  shows "component edges s \<subseteq> V"
proof
  fix v assume "v \<in> component edges s"
  then have "(s, v) \<in> (linked edges)\<^sup>*" by (simp add: component_def)
  then show "v \<in> V" by (induction rule: rtrancl_induct) (auto intro: assms)
qed

lemma component_known:
  assumes "edges_known ids edges" "s \<in> ids"
  shows "component edges s \<subseteq> ids"
  using assms(2)
proof (rule component_least)
  fix v b assume "v \<in> ids" "(v, b) \<in> linked edges"
  with assms(1) show "b \<in> ids"
    by (auto simp: linked_def edges_known_def list_all_iff)
qed

lemma map_of_neighbors: "map_of adj c = Some ns \<Longrightarrow> neighbors adj c = ns"
  by (simp add: neighbors_def)

lemma neighbors_edge_rel: "map_of adj c = Some ns \<Longrightarrow> n \<in> set ns \<Longrightarrow> (c, nodeId n) \<in> edge_rel adj"
  by (auto simp: edge_rel_def neighbors_def)

subsection \<open>Breadth-first search visits the component\<close>

definition closed_under :: "(string \<times> string) set \<Rightarrow> string set \<Rightarrow> string set \<Rightarrow> bool" where
  "closed_under E A B = (\<forall>v \<in> A. \<forall>b. (v, b) \<in> E \<longrightarrow> b \<in> B)"

lemma closed_under_mono: "closed_under E A B \<Longrightarrow> A' \<subseteq> A \<Longrightarrow> B \<subseteq> B' \<Longrightarrow> closed_under E A' B'"
  unfolding closed_under_def by blast

lemma closed_under_insert:
  "closed_under E A B \<Longrightarrow> E `` {c} \<subseteq> B \<Longrightarrow> closed_under E (insert c A) B"
  unfolding closed_under_def by blast

definition bfs_snapshot :: "bfs_state \<Rightarrow> bool" where
  "bfs_snapshot st = (bfs_steps st \<noteq> [] \<and> visited (last (bfs_steps st)) = bfs_visited st)"

text \<open>
  The sets of the traversal: \<open>V\<close> the visited list, \<open>Q\<close> the queue, \<open>busy\<close> the node
  whose neighbours are being expanded. Every visited node that is neither queued nor busy
  has all its neighbours visited.
\<close>

definition bfs_sets ::
  "(string \<times> string) set \<Rightarrow> string set \<Rightarrow> string \<Rightarrow> string set \<Rightarrow> string list \<Rightarrow> string list \<Rightarrow> bool" where
  "bfs_sets E C s busy V Q =
     (distinct V \<and> distinct Q \<and> s \<in> set V \<and> set Q \<subseteq> set V \<and> set V \<subseteq> C \<and>
      busy \<subseteq> set V \<and> busy \<inter> set Q = {} \<and> closed_under E (set V - set Q - busy) (set V))"

lemma bfs_snapshot_push: "bfs_snapshot (bfs_push st cur d)"
  by (simp add: bfs_snapshot_def bfs_push_def)

lemma bfs_sets_discover:
  assumes "bfs_sets E C s {c} V Q" "(c, b) \<in> E" "b \<notin> set V"
    and "\<And>v b. v \<in> C \<Longrightarrow> (v, b) \<in> E \<Longrightarrow> b \<in> C"
  shows "bfs_sets E C s {c} (V @ [b]) (Q @ [b])"
proof -
  from assms(1) have dv: "distinct V" and dq: "distinct Q"
    and sv: "s \<in> set V" and qv: "set Q \<subseteq> set V"
    and vc: "set V \<subseteq> C" and cv: "c \<in> set V" and cq: "c \<notin> set Q"
    and cl: "closed_under E (set V - set Q - {c}) (set V)"
    by (simp_all add: bfs_sets_def)
  from cv vc assms(2,4) have bc: "b \<in> C" by blast
  from assms(3) qv have bq: "b \<notin> set Q" by blast
  from assms(3) cv have bne: "b \<noteq> c" by blast
  have "closed_under E (set (V @ [b]) - set (Q @ [b]) - {c}) (set (V @ [b]))"
    by (rule closed_under_mono [OF cl]) auto
  with dv dq sv qv vc cv cq bc bq bne assms(3) show ?thesis
    by (simp add: bfs_sets_def subset_insertI2)
qed

definition bfs_inner :: "(string \<times> string) set \<Rightarrow> string set \<Rightarrow> string \<Rightarrow> string set \<Rightarrow> bfs_state \<Rightarrow> bool" where
  "bfs_inner E C s busy st =
     (bfs_sets E C s busy (bfs_visited st) (bfs_queue st) \<and> bfs_snapshot st)"

lemma bfs_inner_push: "bfs_inner E C s busy st \<Longrightarrow> bfs_inner E C s busy (bfs_push st cur d)"
  by (simp add: bfs_inner_def bfs_snapshot_push)

lemma bfs_inner_discover:
  assumes "bfs_inner E C s {c} st" "(c, nodeId n) \<in> E" "\<And>v b. v \<in> C \<Longrightarrow> (v, b) \<in> E \<Longrightarrow> b \<in> C"
  shows "bfs_inner E C s {c} (bfs_discover c n st)"
proof (cases "nodeId n \<in> set (bfs_visited st)")
  case True
  with assms(1) show ?thesis by (simp add: bfs_discover_def)
next
  case False
  from assms(1) have "bfs_sets E C s {c} (bfs_visited st) (bfs_queue st)"
    by (simp add: bfs_inner_def)
  from bfs_sets_discover [OF this assms(2) False assms(3)] False show ?thesis
    by (simp add: bfs_discover_def bfs_inner_def bfs_snapshot_push set_add_def)
qed

lemma bfs_inner_neighbors:
  assumes "bfs_inner E C s {c} st" "\<forall>n \<in> set ns. (c, nodeId n) \<in> E"
    "\<And>v b. v \<in> C \<Longrightarrow> (v, b) \<in> E \<Longrightarrow> b \<in> C"
  shows "bfs_inner E C s {c} (bfs_neighbors c ns st)"
  using assms(1,2)
proof (induction ns arbitrary: st)
  case Nil
  then show ?case by simp
next
  case (Cons n ns)
  from Cons.prems have "(c, nodeId n) \<in> E" by simp
  with Cons.prems(1) have "bfs_inner E C s {c} (bfs_discover c n st)"
    by (rule bfs_inner_discover) (rule assms(3))
  with Cons show ?case by simp
qed

definition bfs_inv :: "AdjacencyList \<Rightarrow> Edge list \<Rightarrow> string \<Rightarrow> bfs_state \<Rightarrow> bool" where
  "bfs_inv adj edges s st = bfs_inner (edge_rel adj) (component edges s) s {} st"

lemma bfs_inv_iter:
  assumes inv: "bfs_inv adj edges s st" and q: "bfs_queue st = c # q"
    and ns: "map_of adj c = Some ns" and rel: "edge_rel adj = linked edges"
  shows "bfs_inv adj edges s (bfs_advance (bfs_neighbors c ns (st\<lparr>bfs_queue := q\<rparr>)))"
proof -
  let ?E = "edge_rel adj" and ?C = "component edges s"
  have closed: "\<And>v b. v \<in> ?C \<Longrightarrow> (v, b) \<in> ?E \<Longrightarrow> b \<in> ?C"
    unfolding rel by (rule component_step)
  from inv have sets: "bfs_sets ?E ?C s {} (bfs_visited st) (c # q)" and snap: "bfs_snapshot st"
    by (simp_all add: bfs_inv_def bfs_inner_def q)
  then have cl: "closed_under ?E (set (bfs_visited st) - set (c # q) - {}) (set (bfs_visited st))"
    by (simp add: bfs_sets_def)
  have "closed_under ?E (set (bfs_visited st) - set q - {c}) (set (bfs_visited st))"
    by (rule closed_under_mono [OF cl]) auto
  with sets have "bfs_sets ?E ?C s {c} (bfs_visited st) q"
    by (simp add: bfs_sets_def)
  with snap have start: "bfs_inner ?E ?C s {c} (st\<lparr>bfs_queue := q\<rparr>)"
    by (simp add: bfs_inner_def bfs_snapshot_def)
  have all: "\<forall>n \<in> set ns. (c, nodeId n) \<in> ?E"
    using ns by (auto intro: neighbors_edge_rel)
  let ?st2 = "bfs_neighbors c ns (st\<lparr>bfs_queue := q\<rparr>)"
  from bfs_inner_neighbors [OF start all closed]
  have inner: "bfs_inner ?E ?C s {c} ?st2" .
  then have sets2: "bfs_sets ?E ?C s {c} (bfs_visited ?st2) (bfs_queue ?st2)"
    and snap2: "bfs_snapshot ?st2"
    by (simp_all add: bfs_inner_def)
  have "set (bfs_visited ?st2) = set (bfs_visited st) \<union> nodeId ` set ns"
    by (simp add: bfs_neighbors_visited)
  moreover have "?E `` {c} \<subseteq> nodeId ` set ns"
    using ns by (auto simp: edge_rel_def neighbors_def)
  ultimately have img: "?E `` {c} \<subseteq> set (bfs_visited ?st2)" by blast
  from sets2 have cl2: "closed_under ?E (set (bfs_visited ?st2) - set (bfs_queue ?st2) - {c})
      (set (bfs_visited ?st2))"
    by (simp add: bfs_sets_def)
  have "closed_under ?E (set (bfs_visited ?st2) - set (bfs_queue ?st2) - {})
      (set (bfs_visited ?st2))"
    by (rule closed_under_mono [OF closed_under_insert [OF cl2 img]]) auto
  with sets2 have "bfs_sets ?E ?C s {} (bfs_visited ?st2) (bfs_queue ?st2)"
    by (simp add: bfs_sets_def)
  with snap2 have "bfs_inner ?E ?C s {} ?st2"
    by (simp add: bfs_inner_def)
  then have "bfs_inner ?E ?C s {} (bfs_advance ?st2)"
    by (simp add: bfs_advance_def bfs_inner_push split: list.splits)
  then show ?thesis by (simp add: bfs_inv_def)
qed

lemma bfs_inv_init: "bfs_inv adj edges s (bfs_init s)"
  by (simp add: bfs_inv_def bfs_inner_def bfs_sets_def closed_under_def bfs_snapshot_push
      bfs_init_def set_add_def component_start)

lemma bfs_loop_total:
  assumes "I st"
    and "\<And>st c q ns. I st \<Longrightarrow> bfs_queue st = c # q \<Longrightarrow>
        \<not> (truthy_string tgt \<and> tgt = Some c) \<Longrightarrow> map_of adj c = Some ns \<Longrightarrow>
        I (bfs_advance (bfs_neighbors c ns (st\<lparr>bfs_queue := q\<rparr>)))"
    and "\<And>st c q. I st \<Longrightarrow> bfs_queue st = c # q \<Longrightarrow> c \<in> dom (map_of adj)"
  shows "\<exists>st'. bfs_loop adj tgt st = Inr st'"
  using assms
proof (induction adj tgt st rule: bfs_loop.induct)
  case (1 adj tgt st)
  note init = "1.prems"(1) and iter = "1.prems"(2) and key = "1.prems"(3)
  show ?case
  proof (cases "bfs_queue st")
    case Nil
    then show ?thesis by (simp add: bfs_loop.simps [of adj tgt st])
  next
    case (Cons c q)
    show ?thesis
    proof (cases "truthy_string tgt \<and> tgt = Some c")
      case True
      then have t: "truthy_string tgt" "tgt = Some c" by blast+
      show ?thesis unfolding bfs_loop.simps [of adj tgt st] using Cons t by simp
    next
      case False
      then have nt: "\<not> (truthy_string tgt \<and> Some c = tgt)" by auto
      from key [OF init Cons] obtain ns where ns: "map_of adj c = Some ns" by auto
      from iter [OF init Cons False ns]
      have "\<exists>st'. bfs_loop adj tgt (bfs_advance (bfs_neighbors c ns (st\<lparr>bfs_queue := q\<rparr>))) = Inr st'"
        by (rule "1.IH" [OF Cons nt ns _ iter key])
      then show ?thesis
        using Cons nt ns by (simp add: bfs_loop.simps [of adj tgt st])
    qed
  qed
qed

lemma bfs_visits_component:
  assumes adj: "createAdjacencyList nodes edges = Inr adj" and s: "s \<in> node_ids nodes"
  shows "\<exists>st r. bfs_loop adj None (bfs_init s) = Inr st \<and> bfs_queue st = [] \<and>
           executeBFS nodes edges s None = Inr r \<and> steps r = bfs_steps st \<and> steps r \<noteq> [] \<and>
           distinct (visited (last (steps r))) \<and>
           set (visited (last (steps r))) = component edges s"
proof -
  let ?st0 = "bfs_init s"
  note rel = edge_rel_linked [OF adj]
  note known = createAdjacencyList_Inr [OF adj]
  have comp: "component edges s \<subseteq> dom (map_of adj)"
    unfolding known(1) using known(3) s by (rule component_known)
  have inv0: "bfs_inv adj edges s ?st0" by (rule bfs_inv_init)
  have iter: "bfs_inv adj edges s (bfs_advance (bfs_neighbors c ns (st\<lparr>bfs_queue := q\<rparr>)))"
    if "bfs_inv adj edges s st" "bfs_queue st = c # q" "map_of adj c = Some ns" for st c q ns
    using that rel by (rule bfs_inv_iter)
  have key: "c \<in> dom (map_of adj)" if "bfs_inv adj edges s st" "bfs_queue st = c # q" for st c q
  proof -
    from that have "c \<in> set (bfs_visited st)" "set (bfs_visited st) \<subseteq> component edges s"
      by (simp_all add: bfs_inv_def bfs_inner_def bfs_sets_def)
    with comp show ?thesis by blast
  qed
  have "\<exists>st'. bfs_loop adj None ?st0 = Inr st'"
  proof (rule bfs_loop_total [where I = "bfs_inv adj edges s"])
    show "bfs_inv adj edges s ?st0" by (rule inv0)
  next
    fix st c q ns
    assume "bfs_inv adj edges s st" "bfs_queue st = c # q" "map_of adj c = Some ns"
    then show "bfs_inv adj edges s (bfs_advance (bfs_neighbors c ns (st\<lparr>bfs_queue := q\<rparr>)))"
      by (rule iter)
  next
    fix st c q
    assume "bfs_inv adj edges s st" "bfs_queue st = c # q"
    then show "c \<in> dom (map_of adj)" by (rule key)
  qed
  then obtain st where run: "bfs_loop adj None ?st0 = Inr st" by blast
  have fin: "bfs_inv adj edges s st \<and> bfs_queue st = []"
  proof (rule bfs_loop_rule [where I = "bfs_inv adj edges s", OF run inv0])
    fix st c q ns
    assume "bfs_inv adj edges s st" "bfs_queue st = c # q" "map_of adj c = Some ns"
    then show "bfs_inv adj edges s (bfs_advance (bfs_neighbors c ns (st\<lparr>bfs_queue := q\<rparr>)))"
      by (rule iter)
  qed (simp_all add: truthy_string_def)
  then have inner: "bfs_inner (linked edges) (component edges s) s {} st" and q: "bfs_queue st = []"
    by (simp_all add: bfs_inv_def rel)
  from inner q have sv: "s \<in> set (bfs_visited st)" and vc: "set (bfs_visited st) \<subseteq> component edges s"
    and cl: "\<forall>v \<in> set (bfs_visited st). \<forall>b. (v, b) \<in> linked edges \<longrightarrow> b \<in> set (bfs_visited st)"
    by (simp_all add: bfs_inner_def bfs_sets_def closed_under_def)
  have "component edges s \<subseteq> set (bfs_visited st)"
    using sv cl by (intro component_least) blast+
  with vc have "set (bfs_visited st) = component edges s" by blast
  moreover from inner have "distinct (bfs_visited st)" "bfs_steps st \<noteq> []"
    "visited (last (bfs_steps st)) = bfs_visited st"
    by (simp_all add: bfs_inner_def bfs_sets_def bfs_snapshot_def)
  ultimately show ?thesis
    using adj run q by (simp add: executeBFS_def)
qed

subsection \<open>Depth-first search visits the component\<close>

definition dfs_snapshot :: "dfs_state \<Rightarrow> bool" where
  "dfs_snapshot st = (dfs_steps st \<noteq> [] \<and> visited (last (dfs_steps st)) = dfs_visited st)"

text \<open>
  The sets of the depth-first traversal: every neighbour of a visited node is visited
  or waits on the stack.
\<close>

definition dfs_sets ::
  "(string \<times> string) set \<Rightarrow> string set \<Rightarrow> string \<Rightarrow> string list \<Rightarrow> string list \<Rightarrow> bool" where
  "dfs_sets E C s V S =
     (distinct V \<and> set V \<subseteq> C \<and> set S \<subseteq> C \<and> s \<in> set V \<union> set S \<and>
      closed_under E (set V) (set V \<union> set S))"

definition dfs_inv :: "AdjacencyList \<Rightarrow> Edge list \<Rightarrow> string \<Rightarrow> dfs_state \<Rightarrow> bool" where
  "dfs_inv adj edges s st =
     (dfs_sets (edge_rel adj) (component edges s) s (dfs_visited st) (dfs_stack st) \<and>
      dfs_snapshot st)"

lemma dfs_snapshot_push: "dfs_snapshot (dfs_push st cur d)"
  by (simp add: dfs_snapshot_def dfs_push_def)

lemma dfs_snapshot_add: "dfs_snapshot st \<Longrightarrow> dfs_snapshot (dfs_add c n st)"
  by (simp add: dfs_add_def dfs_snapshot_push)

lemma dfs_snapshot_neighbors: "dfs_snapshot st \<Longrightarrow> dfs_snapshot (dfs_neighbors c ns st)"
  by (induction ns arbitrary: st) (simp_all add: dfs_snapshot_add)

lemma set_butlast_last: "S \<noteq> [] \<Longrightarrow> set S = insert (last S) (set (butlast S))"
  by (metis append_butlast_last_id list.simps(15) rotate1.simps(2) set_rotate1)

lemma dfs_sets_pop:
  assumes "dfs_sets E C s V S" "S \<noteq> []" "last S \<in> set V"
  shows "dfs_sets E C s V (butlast S)"
proof -
  note S = set_butlast_last [OF assms(2)]
  from assms(1) have cl: "closed_under E (set V) (set V \<union> set S)"
    by (simp add: dfs_sets_def)
  have "closed_under E (set V) (set V \<union> set (butlast S))"
    by (rule closed_under_mono [OF cl]) (use S assms(3) in auto)
  with assms(1,3) S show ?thesis
    by (auto simp: dfs_sets_def)
qed

lemma dfs_sets_visit:
  assumes sets: "dfs_sets E C s V S" and ne: "S \<noteq> []" and nv: "last S \<notin> set V"
    and img: "E `` {last S} = N" and closed: "\<And>v b. v \<in> C \<Longrightarrow> (v, b) \<in> E \<Longrightarrow> b \<in> C"
    and S': "set S' = set (butlast S) \<union> (N - insert (last S) (set V))"
  shows "dfs_sets E C s (V @ [last S]) S'"
proof -
  note S = set_butlast_last [OF ne]
  from sets have dv: "distinct V" and vc: "set V \<subseteq> C" and sc: "set S \<subseteq> C"
    and sv: "s \<in> set V \<union> set S" and cl: "closed_under E (set V) (set V \<union> set S)"
    by (simp_all add: dfs_sets_def)
  from sc S have lc: "last S \<in> C" by blast
  with closed img have nc: "N \<subseteq> C" by blast
  have cl1: "closed_under E (set V) (set (V @ [last S]) \<union> set S')"
    by (rule closed_under_mono [OF cl]) (use S S' in auto)
  have "E `` {last S} \<subseteq> set (V @ [last S]) \<union> set S'"
    unfolding img S' by auto
  from closed_under_insert [OF cl1 this]
  have "closed_under E (set (V @ [last S])) (set (V @ [last S]) \<union> set S')"
    by simp
  moreover have "set S' \<subseteq> C" using S' S sc nc by blast
  moreover have "s \<in> set (V @ [last S]) \<union> set S'" using sv S S' by auto
  ultimately show ?thesis
    using dv vc lc nv by (simp add: dfs_sets_def)
qed

lemma dfs_inv_pop:
  assumes "dfs_inv adj edges s st" "dfs_stack st \<noteq> []" "last (dfs_stack st) \<in> set (dfs_visited st)"
  shows "dfs_inv adj edges s (st\<lparr>dfs_stack := butlast (dfs_stack st)\<rparr>)"
  using assms dfs_sets_pop [of "edge_rel adj" "component edges s" s "dfs_visited st" "dfs_stack st"]
  by (simp add: dfs_inv_def dfs_snapshot_def)

lemma dfs_inv_iter:
  assumes inv: "dfs_inv adj edges s st" and ne: "dfs_stack st \<noteq> []"
    and nv: "last (dfs_stack st) \<notin> set (dfs_visited st)"
    and ns: "map_of adj (last (dfs_stack st)) = Some ns" and rel: "edge_rel adj = linked edges"
  shows "dfs_inv adj edges s
           (dfs_neighbors (last (dfs_stack st)) (rev ns)
              (dfs_push (st\<lparr>dfs_stack := butlast (dfs_stack st),
                            dfs_visited := set_add (dfs_visited st) (last (dfs_stack st))\<rparr>)
                 (Some (last (dfs_stack st))) (Visiting (last (dfs_stack st)))))"
proof -
  let ?E = "edge_rel adj" and ?C = "component edges s" and ?c = "last (dfs_stack st)"
  let ?st1 = "dfs_push (st\<lparr>dfs_stack := butlast (dfs_stack st),
                            dfs_visited := set_add (dfs_visited st) ?c\<rparr>)
                 (Some ?c) (Visiting ?c)"
  let ?st2 = "dfs_neighbors ?c (rev ns) ?st1"
  have closed: "\<And>v b. v \<in> ?C \<Longrightarrow> (v, b) \<in> ?E \<Longrightarrow> b \<in> ?C"
    unfolding rel by (rule component_step)
  have img: "?E `` {?c} = nodeId ` set ns"
    using ns by (auto simp: edge_rel_def neighbors_def)
  have vis: "dfs_visited ?st2 = dfs_visited st @ [?c]"
    using nv by (simp add: set_add_def)
  have stk: "set (dfs_stack ?st2) =
      set (butlast (dfs_stack st)) \<union> (nodeId ` set ns - insert ?c (set (dfs_visited st)))"
    by (auto simp: dfs_neighbors_stack)
  from inv have sets: "dfs_sets ?E ?C s (dfs_visited st) (dfs_stack st)"
    by (simp add: dfs_inv_def)
  have "dfs_sets ?E ?C s (dfs_visited ?st2) (dfs_stack ?st2)"
    unfolding vis by (rule dfs_sets_visit [OF sets ne nv img closed stk])
  moreover have "dfs_snapshot ?st2"
    by (intro dfs_snapshot_neighbors dfs_snapshot_push)
  ultimately show ?thesis by (simp add: dfs_inv_def)
qed

lemma dfs_loop_total:
  assumes "I st"
    and "\<And>st. I st \<Longrightarrow> dfs_stack st \<noteq> [] \<Longrightarrow>
        last (dfs_stack st) \<in> set (dfs_visited st) \<Longrightarrow>
        I (st\<lparr>dfs_stack := butlast (dfs_stack st)\<rparr>)"
    and "\<And>st ns. I st \<Longrightarrow> dfs_stack st \<noteq> [] \<Longrightarrow>
        last (dfs_stack st) \<notin> set (dfs_visited st) \<Longrightarrow>
        \<not> (truthy_string tgt \<and> tgt = Some (last (dfs_stack st))) \<Longrightarrow>
        map_of adj (last (dfs_stack st)) = Some ns \<Longrightarrow>
        I (dfs_neighbors (last (dfs_stack st)) (rev ns)
             (dfs_push (st\<lparr>dfs_stack := butlast (dfs_stack st),
                           dfs_visited := set_add (dfs_visited st) (last (dfs_stack st))\<rparr>)
                (Some (last (dfs_stack st))) (Visiting (last (dfs_stack st)))))"
    and "\<And>st. I st \<Longrightarrow> dfs_stack st \<noteq> [] \<Longrightarrow> last (dfs_stack st) \<in> dom (map_of adj)"
  shows "\<exists>st'. dfs_loop adj tgt st = Inr st'"
  using assms
proof (induction adj tgt st rule: dfs_loop.induct)
  case (1 adj tgt st)
  note init = "1.prems"(1) and pop = "1.prems"(2) and iter = "1.prems"(3) and key = "1.prems"(4)
  show ?case
  proof (cases "dfs_stack st = []")
    case True
    then show ?thesis by (simp add: dfs_loop.simps [of adj tgt st])
  next
    case ne: False
    show ?thesis
    proof (cases "last (dfs_stack st) \<in> set (dfs_visited st)")
      case True
      from pop [OF init ne True]
      have "\<exists>st'. dfs_loop adj tgt (st\<lparr>dfs_stack := butlast (dfs_stack st)\<rparr>) = Inr st'"
        by (rule "1.IH"(1) [OF ne True _ pop iter key])
      then show ?thesis using ne True by (simp add: dfs_loop.simps [of adj tgt st])
    next
      case nv: False
      show ?thesis
      proof (cases "truthy_string tgt \<and> tgt = Some (last (dfs_stack st))")
        case True
        then have t: "truthy_string tgt" "tgt = Some (last (dfs_stack st))" by blast+
        show ?thesis unfolding dfs_loop.simps [of adj tgt st] using ne nv t by simp
      next
        case False
        then have nt: "\<not> (truthy_string tgt \<and> Some (last (dfs_stack st)) = tgt)" by auto
        from key [OF init ne] obtain ns where ns: "map_of adj (last (dfs_stack st)) = Some ns"
          by auto
        from iter [OF init ne nv False ns]
        have "\<exists>st'. dfs_loop adj tgt (dfs_neighbors (last (dfs_stack st)) (rev ns)
             (dfs_push (st\<lparr>dfs_stack := butlast (dfs_stack st),
                           dfs_visited := set_add (dfs_visited st) (last (dfs_stack st))\<rparr>)
                (Some (last (dfs_stack st))) (Visiting (last (dfs_stack st))))) = Inr st'"
          by (rule "1.IH"(2) [OF ne nv nt ns _ pop iter key])
        then show ?thesis using ne nv nt ns by (simp add: dfs_loop.simps [of adj tgt st])
      qed
    qed
  qed
qed

lemma dfs_visits_component:
  assumes adj: "createAdjacencyList nodes edges = Inr adj" and s: "s \<in> node_ids nodes"
  shows "\<exists>st r. dfs_loop adj None (dfs_init s) = Inr st \<and> dfs_stack st = [] \<and>
           executeDFS nodes edges s None = Inr r \<and> steps r = dfs_steps st \<and> steps r \<noteq> [] \<and>
           distinct (visited (last (steps r))) \<and>
           set (visited (last (steps r))) = component edges s"
proof -
  note rel = edge_rel_linked [OF adj]
  note known = createAdjacencyList_Inr [OF adj]
  have comp: "component edges s \<subseteq> dom (map_of adj)"
    unfolding known(1) using known(3) s by (rule component_known)
  have inv0: "dfs_inv adj edges s (dfs_init s)"
    by (simp add: dfs_inv_def dfs_sets_def closed_under_def dfs_snapshot_push dfs_init_def
        component_start)
  have pop: "dfs_inv adj edges s (st\<lparr>dfs_stack := butlast (dfs_stack st)\<rparr>)"
    if "dfs_inv adj edges s st" "dfs_stack st \<noteq> []" "last (dfs_stack st) \<in> set (dfs_visited st)"
    for st using that by (rule dfs_inv_pop)
  have iter: "dfs_inv adj edges s
           (dfs_neighbors (last (dfs_stack st)) (rev ns)
              (dfs_push (st\<lparr>dfs_stack := butlast (dfs_stack st),
                            dfs_visited := set_add (dfs_visited st) (last (dfs_stack st))\<rparr>)
                 (Some (last (dfs_stack st))) (Visiting (last (dfs_stack st)))))"
    if "dfs_inv adj edges s st" "dfs_stack st \<noteq> []" "last (dfs_stack st) \<notin> set (dfs_visited st)"
      "map_of adj (last (dfs_stack st)) = Some ns" for st ns
    using that rel by (rule dfs_inv_iter)
  have key: "last (dfs_stack st) \<in> dom (map_of adj)"
    if "dfs_inv adj edges s st" "dfs_stack st \<noteq> []" for st
  proof -
    from that have "last (dfs_stack st) \<in> set (dfs_stack st)"
      "set (dfs_stack st) \<subseteq> component edges s"
      by (simp_all add: dfs_inv_def dfs_sets_def)
    with comp show ?thesis by blast
  qed
  have "\<exists>st'. dfs_loop adj None (dfs_init s) = Inr st'"
  proof (rule dfs_loop_total [where I = "dfs_inv adj edges s"])
    show "dfs_inv adj edges s (dfs_init s)" by (rule inv0)
  next
    fix st assume "dfs_inv adj edges s st" "dfs_stack st \<noteq> []"
      "last (dfs_stack st) \<in> set (dfs_visited st)"
    then show "dfs_inv adj edges s (st\<lparr>dfs_stack := butlast (dfs_stack st)\<rparr>)" by (rule pop)
  next
    fix st ns assume "dfs_inv adj edges s st" "dfs_stack st \<noteq> []"
      "last (dfs_stack st) \<notin> set (dfs_visited st)" "map_of adj (last (dfs_stack st)) = Some ns"
    then show "dfs_inv adj edges s
           (dfs_neighbors (last (dfs_stack st)) (rev ns)
              (dfs_push (st\<lparr>dfs_stack := butlast (dfs_stack st),
                            dfs_visited := set_add (dfs_visited st) (last (dfs_stack st))\<rparr>)
                 (Some (last (dfs_stack st))) (Visiting (last (dfs_stack st)))))"
      by (rule iter)
  next
    fix st assume "dfs_inv adj edges s st" "dfs_stack st \<noteq> []"
    then show "last (dfs_stack st) \<in> dom (map_of adj)" by (rule key)
  qed
  then obtain st where run: "dfs_loop adj None (dfs_init s) = Inr st" by blast
  have fin: "dfs_inv adj edges s st \<and> dfs_stack st = []"
  proof (rule dfs_loop_rule [where I = "dfs_inv adj edges s", OF run inv0])
    fix st assume "dfs_inv adj edges s st" "dfs_stack st \<noteq> []"
      "last (dfs_stack st) \<in> set (dfs_visited st)"
    then show "dfs_inv adj edges s (st\<lparr>dfs_stack := butlast (dfs_stack st)\<rparr>)" by (rule pop)
  next
    fix st ns assume "dfs_inv adj edges s st" "dfs_stack st \<noteq> []"
      "last (dfs_stack st) \<notin> set (dfs_visited st)" "map_of adj (last (dfs_stack st)) = Some ns"
    then show "dfs_inv adj edges s
           (dfs_neighbors (last (dfs_stack st)) (rev ns)
              (dfs_push (st\<lparr>dfs_stack := butlast (dfs_stack st),
                            dfs_visited := set_add (dfs_visited st) (last (dfs_stack st))\<rparr>)
                 (Some (last (dfs_stack st))) (Visiting (last (dfs_stack st)))))"
      by (rule iter)
  qed (simp_all add: truthy_string_def)
  then have stk: "dfs_stack st = []" and snap: "dfs_snapshot st"
    and "dfs_sets (linked edges) (component edges s) s (dfs_visited st) (dfs_stack st)"
    unfolding dfs_inv_def rel by blast+
  then have sets: "dfs_sets (linked edges) (component edges s) s (dfs_visited st) []"
    by simp
  from sets have sv: "s \<in> set (dfs_visited st)"
    and vc: "set (dfs_visited st) \<subseteq> component edges s"
    and cl: "\<forall>v \<in> set (dfs_visited st). \<forall>b. (v, b) \<in> linked edges \<longrightarrow> b \<in> set (dfs_visited st)"
    and dv: "distinct (dfs_visited st)"
    by (simp_all add: dfs_sets_def closed_under_def)
  have "component edges s \<subseteq> set (dfs_visited st)"
    using sv cl by (intro component_least) blast+
  with vc have "set (dfs_visited st) = component edges s" by blast
  with dv snap show ?thesis
    using adj run stk by (simp add: executeDFS_def dfs_snapshot_def)
qed

subsection \<open>The trace of a breadth-first search with a target\<close>










section \<open>Dijkstra and least walk weights\<close>

subsection \<open>Order on scores\<close>

definition le_score :: "score \<Rightarrow> score \<Rightarrow> bool" where
  "le_score a b = (a = b \<or> lt a b)"

lemma lt_trans: "lt a b \<Longrightarrow> lt b c \<Longrightarrow> lt a c"
  by (cases a; cases b; cases c) auto

lemma lt_irrefl [simp]: "\<not> lt a a"
  by (cases a) auto

lemma lt_asym: "lt a b \<Longrightarrow> \<not> lt b a"
  by (cases a; cases b) auto

lemma lt_Infinity: "lt a Infinity = (\<exists>d. a = Num d)"
  by (cases a) auto

lemma lt_Num: "lt a (Num d) = (\<exists>x. a = Num x \<and> x < d)"
  by (cases a) auto

lemma le_score_refl [simp]: "le_score a a"
  by (simp add: le_score_def)

lemma le_score_trans: "le_score a b \<Longrightarrow> le_score b c \<Longrightarrow> le_score a c"
  by (auto simp: le_score_def intro: lt_trans)

lemma le_score_Num: "le_score a (Num d) = (\<exists>x. a = Num x \<and> x \<le> d)"
  by (cases a) (auto simp: le_score_def)

lemma not_lt_le: "a \<noteq> NaN \<Longrightarrow> b \<noteq> NaN \<Longrightarrow> \<not> lt a b \<Longrightarrow> le_score b a"
  by (cases a; cases b) (auto simp: le_score_def)

lemma le_score_not_lt: "le_score a b \<Longrightarrow> \<not> lt b a"
  by (auto simp: le_score_def dest: lt_asym)

lemma read_score_update:
  "read_score (AList.update k v m) j = (if j = k then v else read_score m j)"
  by (simp add: read_score_def update_conv')

subsection \<open>The minimum scan\<close>

lemma min_scan_result:
  "min_scan m ks acc = (x, sd) \<Longrightarrow>
   (x, sd) = acc \<or> (\<exists>c \<in> set ks. x = Some c \<and> sd = read_score m c \<and> lt sd (snd acc))"
proof (induction ks arbitrary: acc)
  case Nil
  then show ?case by simp
next
  case (Cons k ks)
  let ?acc = "if lt (read_score m k) (snd acc) then (Some k, read_score m k) else acc"
  from Cons.prems have "min_scan m ks ?acc = (x, sd)" by simp
  from Cons.IH [OF this] show ?case
    by (auto split: if_splits intro: lt_trans)
qed

lemma min_scan_least:
  "min_scan m ks acc = (x, sd) \<Longrightarrow>
   le_score sd (snd acc) \<and> (\<forall>k \<in> set ks. \<not> lt (read_score m k) sd)"
proof (induction ks arbitrary: acc)
  case Nil
  then show ?case by auto
next
  case (Cons k ks)
  let ?acc = "if lt (read_score m k) (snd acc) then (Some k, read_score m k) else acc"
  from Cons.prems have run: "min_scan m ks ?acc = (x, sd)" by simp
  from Cons.IH [OF run] have le: "le_score sd (snd ?acc)"
    and rest: "\<forall>j \<in> set ks. \<not> lt (read_score m j) sd" by simp_all
  show ?case
  proof (cases "lt (read_score m k) (snd acc)")
    case True
    with le have l: "le_score sd (read_score m k)" by simp
    with True have "le_score sd (snd acc)"
      by (auto simp: le_score_def intro: lt_trans)
    moreover from l have "\<not> lt (read_score m k) sd" by (rule le_score_not_lt)
    ultimately show ?thesis using rest by simp
  next
    case False
    with le have l: "le_score sd (snd acc)" by simp
    have "\<not> lt (read_score m k) sd"
    proof
      assume "lt (read_score m k) sd"
      with l have "lt (read_score m k) (snd acc)"
        by (auto simp: le_score_def intro: lt_trans)
      with False show False by simp
    qed
    with l rest show ?thesis by simp
  qed
qed

lemma min_scan_Some:
  assumes "min_scan m ks (None, Infinity) = (Some c, sd)"
  shows "c \<in> set ks" and "\<exists>d. read_score m c = Num d \<and> sd = Num d"
    and "\<forall>k \<in> set ks. \<not> lt (read_score m k) (read_score m c)"
proof -
  from min_scan_result [OF assms] obtain c' where c': "c' \<in> set ks" "Some c = Some c'"
    "sd = read_score m c'" "lt sd Infinity" by auto
  then show "c \<in> set ks" by simp
  from c' show "\<exists>d. read_score m c = Num d \<and> sd = Num d" by (auto simp: lt_Infinity)
  from min_scan_least [OF assms] c' show "\<forall>k \<in> set ks. \<not> lt (read_score m k) (read_score m c)"
    by simp
qed

lemma min_scan_None:
  assumes "min_scan m ks (None, Infinity) = (None, sd)"
  shows "\<forall>k \<in> set ks. \<not> lt (read_score m k) Infinity"
proof -
  from min_scan_result [OF assms] have "sd = Infinity" by auto
  with min_scan_least [OF assms] show ?thesis by simp
qed

subsection \<open>The initial objects\<close>

lemma map_of_assign_all:
  "map_of (assign_all v nodes m) k = (if k \<in> node_ids nodes then Some v else map_of m k)"
  by (induction nodes arbitrary: m) (auto simp: node_ids_def update_conv')

lemma set_add_all: "set (add_all nodes s) = set s \<union> node_ids nodes"
  by (induction nodes arbitrary: s) (auto simp: node_ids_def)

lemma distinct_set_add: "distinct s \<Longrightarrow> distinct (set_add s k)"
  by (simp add: set_add_def)

lemma distinct_add_all: "distinct s \<Longrightarrow> distinct (add_all nodes s)"
  by (induction nodes arbitrary: s) (simp_all add: distinct_set_add)

lemma dj_init_fields:
  "read_score (dj_distances (dj_init nodes s)) k =
     (if k = s then Num 0 else if k \<in> node_ids nodes then Infinity else NaN)"
  "map_of (dj_previous (dj_init nodes s)) k = (if k \<in> node_ids nodes then Some None else None)"
  "set (dj_unvisited (dj_init nodes s)) = node_ids nodes"
  "dj_steps (dj_init nodes s) \<noteq> []"
  "distances (last (dj_steps (dj_init nodes s))) = Some (dj_distances (dj_init nodes s))"
  by (simp_all add: dj_init_def Let_def read_score_def update_conv' map_of_assign_all set_add_all)

subsection \<open>Walks in the adjacency projection\<close>

inductive walk :: "AdjacencyList \<Rightarrow> string \<Rightarrow> string \<Rightarrow> real \<Rightarrow> bool" for adj s where
  walk_start: "walk adj s s 0"
| walk_step: "walk adj s u d \<Longrightarrow> n \<in> set (neighbors adj u) \<Longrightarrow>
              walk adj s (nodeId n) (d + weight n)"

definition shortest :: "AdjacencyList \<Rightarrow> string \<Rightarrow> string \<Rightarrow> real \<Rightarrow> bool" where
  "shortest adj s v d = (walk adj s v d \<and> (\<forall>d'. walk adj s v d' \<longrightarrow> d \<le> d'))"

definition nonneg_weights :: "AdjacencyList \<Rightarrow> bool" where
  "nonneg_weights adj = (\<forall>a. \<forall>n \<in> set (neighbors adj a). 0 \<le> weight n)"

definition closed_adj :: "AdjacencyList \<Rightarrow> string set \<Rightarrow> bool" where
  "closed_adj adj ids = (\<forall>a. \<forall>n \<in> set (neighbors adj a). nodeId n \<in> ids)"

lemma walk_nonneg:
  assumes "nonneg_weights adj" "walk adj s v d"
  shows "0 \<le> d"
  using assms(2,1) by (induction rule: walk.induct) (auto simp: nonneg_weights_def)

lemma walk_in_ids:
  assumes "closed_adj adj ids" "s \<in> ids" "walk adj s v d"
  shows "v \<in> ids"
  using assms(3,1,2) by (induction rule: walk.induct) (auto simp: closed_adj_def)

subsection \<open>The invariant of the relaxation\<close>

text \<open>
  \<open>D\<close> reads the distance object, \<open>U\<close> is the unvisited set, \<open>busy\<close> the node whose
  edges are being relaxed. Every finite distance is the weight of a walk; a node that left
  \<open>U\<close> has its shortest distance; every edge from such a node (other than the busy one)
  into \<open>U\<close> is relaxed.
\<close>

definition dj_core ::
  "AdjacencyList \<Rightarrow> string set \<Rightarrow> string \<Rightarrow> string set \<Rightarrow> (string \<Rightarrow> score) \<Rightarrow> string set \<Rightarrow> bool" where
  "dj_core adj ids s busy D U =
     (U \<subseteq> ids \<and> (\<forall>k \<in> ids. D k \<noteq> NaN) \<and> D s = Num 0 \<and>
      (\<forall>k \<in> ids. \<forall>d. D k = Num d \<longrightarrow> walk adj s k d) \<and>
      (\<forall>k \<in> ids - U. \<exists>d. D k = Num d \<and> shortest adj s k d) \<and>
      (\<forall>k \<in> ids - U - busy. \<forall>n \<in> set (neighbors adj k). nodeId n \<in> U \<longrightarrow>
          le_score (D (nodeId n)) (add_num (D k) (weight n))))"

lemma core_visited:
  "dj_core adj ids s busy D U \<Longrightarrow> k \<in> ids \<Longrightarrow> k \<notin> U \<Longrightarrow>
   \<exists>d. D k = Num d \<and> shortest adj s k d"
  unfolding dj_core_def by blast

lemma core_edge:
  "dj_core adj ids s busy D U \<Longrightarrow> k \<in> ids \<Longrightarrow> k \<notin> U \<Longrightarrow> k \<notin> busy \<Longrightarrow>
   n \<in> set (neighbors adj k) \<Longrightarrow> nodeId n \<in> U \<Longrightarrow>
   le_score (D (nodeId n)) (add_num (D k) (weight n))"
  unfolding dj_core_def by blast

lemma core_walk:
  "dj_core adj ids s busy D U \<Longrightarrow> k \<in> ids \<Longrightarrow> D k = Num d \<Longrightarrow> walk adj s k d"
  unfolding dj_core_def by blast

lemma core_facts:
  assumes "dj_core adj ids s busy D U"
  shows "U \<subseteq> ids" and "D s = Num 0" and "\<And>k. k \<in> ids \<Longrightarrow> D k \<noteq> NaN"
  using assms unfolding dj_core_def by blast+

lemma core_lower:
  assumes core: "dj_core adj ids s {} D U" and nn: "nonneg_weights adj"
    and cl: "closed_adj adj ids" and s: "s \<in> ids" and w: "walk adj s v d"
  shows "v \<in> ids \<and> (v \<in> U \<longrightarrow> (\<exists>y \<in> U. le_score (D y) (Num d)))"
  using w
proof (induction rule: walk.induct)
  case walk_start
  from core_facts(2) [OF core] have "le_score (D s) (Num 0)" by simp
  then have "s \<in> U \<longrightarrow> (\<exists>y \<in> U. le_score (D y) (Num 0))" by blast
  with s show ?case by simp
next
  case (walk_step u d n)
  let ?v = "nodeId n" and ?w = "weight n"
  from walk_step.IH have u: "u \<in> ids" by simp
  from cl walk_step.hyps(2) have v: "?v \<in> ids" by (auto simp: closed_adj_def)
  from nn walk_step.hyps(2) have w0: "0 \<le> ?w" by (auto simp: nonneg_weights_def)
  have "\<exists>y \<in> U. le_score (D y) (Num (d + ?w))" if vU: "?v \<in> U"
  proof (cases "u \<in> U")
    case True
    with walk_step.IH obtain y where y: "y \<in> U" "le_score (D y) (Num d)" by auto
    then obtain x where "D y = Num x" "x \<le> d" by (auto simp: le_score_Num)
    with w0 have "le_score (D y) (Num (d + ?w))" by (simp add: le_score_Num)
    with y(1) show ?thesis by blast
  next
    case False
    from core_visited [OF core u False] obtain du where
      du: "D u = Num du" "shortest adj s u du" by blast
    with walk_step.hyps(1) have "du \<le> d" by (simp add: shortest_def)
    moreover from core_edge [OF core u False _ walk_step.hyps(2) vU] du(1)
    have "le_score (D ?v) (Num (du + ?w))" by simp
    ultimately have "le_score (D ?v) (Num (d + ?w))"
      by (auto simp: le_score_Num)
    with vU show ?thesis by blast
  qed
  with v show ?case by simp
qed

lemma core_select:
  assumes core: "dj_core adj ids s {} D U" and nn: "nonneg_weights adj"
    and cl: "closed_adj adj ids" and s: "s \<in> ids"
    and c: "c \<in> U" and dc: "D c = Num dc" and least: "\<forall>k \<in> U. \<not> lt (D k) (D c)"
  shows "dj_core adj ids s {c} D (U - {c})" and "shortest adj s c dc"
proof -
  from core_facts(1) [OF core] c have cid: "c \<in> ids" by blast
  from core_walk [OF core cid dc] have wc: "walk adj s c dc" .
  have "dc \<le> d'" if "walk adj s c d'" for d'
  proof -
    from core_lower [OF core nn cl s that] c obtain y where y: "y \<in> U" "le_score (D y) (Num d')"
      by auto
    then obtain x where x: "D y = Num x" "x \<le> d'" by (auto simp: le_score_Num)
    from least y(1) have "\<not> lt (D y) (D c)" by simp
    with x dc show ?thesis by simp
  qed
  with wc show sh: "shortest adj s c dc" by (simp add: shortest_def)
  have a: "\<forall>k \<in> ids - (U - {c}). \<exists>d. D k = Num d \<and> shortest adj s k d"
  proof
    fix k assume "k \<in> ids - (U - {c})"
    then have "k \<in> ids \<and> k \<notin> U \<or> k = c" by auto
    with core_visited [OF core, of k] dc sh show "\<exists>d. D k = Num d \<and> shortest adj s k d"
      by blast
  qed
  have b: "\<forall>k \<in> ids - (U - {c}) - {c}. \<forall>n \<in> set (neighbors adj k). nodeId n \<in> U - {c} \<longrightarrow>
          le_score (D (nodeId n)) (add_num (D k) (weight n))"
    using core_edge [OF core] by auto
  from core a b show "dj_core adj ids s {c} D (U - {c})"
    unfolding dj_core_def by blast
qed

lemma core_relax:
  assumes core: "dj_core adj ids s {c} D U" and nn: "nonneg_weights adj"
    and c: "c \<in> ids" "c \<notin> U" and n: "n \<in> set (neighbors adj c)"
    and D': "D' = (\<lambda>k. if nodeId n \<in> U \<and> lt (add_num (D c) (weight n)) (D (nodeId n)) \<and> k = nodeId n
                       then add_num (D c) (weight n) else D k)"
  shows "dj_core adj ids s {c} D' U" and "\<forall>k. le_score (D' k) (D k)" and "D' c = D c"
    and "nodeId n \<in> U \<longrightarrow> le_score (D' (nodeId n)) (add_num (D c) (weight n))"
proof -
  let ?v = "nodeId n" and ?w = "weight n"
  from core_visited [OF core c] obtain dc where dc: "D c = Num dc" "shortest adj s c dc" by blast
  then have wc: "walk adj s c dc" by (simp add: shortest_def)
  from walk_nonneg [OF nn wc] have dc0: "0 \<le> dc" .
  from nn n have w0: "0 \<le> ?w" by (auto simp: nonneg_weights_def)
  note Uids = core_facts(1) [OF core]
  show le: "\<forall>k. le_score (D' k) (D k)"
    by (simp add: D' le_score_def)
  show Dc: "D' c = D c" using c by (auto simp: D')
  have visited: "D' k = D k" if "k \<notin> U" for k using that by (auto simp: D')
  show "?v \<in> U \<longrightarrow> le_score (D' ?v) (add_num (D c) ?w)"
  proof
    assume vU: "?v \<in> U"
    with Uids core_facts(3) [OF core] have "D ?v \<noteq> NaN" by blast
    then show "le_score (D' ?v) (add_num (D c) ?w)"
      using vU dc(1) by (auto simp: D' intro: not_lt_le)
  qed
  have a: "\<forall>k \<in> ids. D' k \<noteq> NaN"
    using core_facts(3) [OF core] dc(1) by (auto simp: D')
  have b: "D' s = Num 0"
  proof -
    note s0 = core_facts(2) [OF core]
    have "\<not> lt (add_num (D c) ?w) (D s)"
      using dc(1) dc0 w0 s0 by simp
    with s0 show ?thesis by (auto simp: D')
  qed
  have r: "\<forall>k \<in> ids. \<forall>d. D' k = Num d \<longrightarrow> walk adj s k d"
  proof (intro ballI allI impI)
    fix k d assume k: "k \<in> ids" and d: "D' k = Num d"
    show "walk adj s k d"
    proof (cases "D' k = D k")
      case True
      with core_walk [OF core k] d show ?thesis by simp
    next
      case False
      then have "k = ?v" "D' k = add_num (D c) ?w" by (auto simp: D' split: if_splits)
      with d dc(1) have "d = dc + ?w" by simp
      with walk_step [OF wc n] \<open>k = ?v\<close> show ?thesis by simp
    qed
  qed
  have o: "\<forall>k \<in> ids - U. \<exists>d. D' k = Num d \<and> shortest adj s k d"
    using core_visited [OF core] visited by auto
  have e: "\<forall>k \<in> ids - U - {c}. \<forall>m \<in> set (neighbors adj k). nodeId m \<in> U \<longrightarrow>
          le_score (D' (nodeId m)) (add_num (D' k) (weight m))"
  proof (intro ballI impI)
    fix k m assume k: "k \<in> ids - U - {c}" and m: "m \<in> set (neighbors adj k)" "nodeId m \<in> U"
    with core_edge [OF core, of k m] have "le_score (D (nodeId m)) (add_num (D k) (weight m))"
      by simp
    with le have "le_score (D' (nodeId m)) (add_num (D k) (weight m))"
      by (blast intro: le_score_trans)
    with k visited [of k] show "le_score (D' (nodeId m)) (add_num (D' k) (weight m))" by simp
  qed
  from Uids a b r o e show "dj_core adj ids s {c} D' U"
    unfolding dj_core_def by blast
qed

lemma core_finish:
  assumes "dj_core adj ids s {c} D U"
    and "\<forall>n \<in> set (neighbors adj c). nodeId n \<in> U \<longrightarrow>
           le_score (D (nodeId n)) (add_num (D c) (weight n))"
  shows "dj_core adj ids s {} D U"
  using assms unfolding dj_core_def by blast

subsection \<open>The relaxation on the state\<close>

definition dj_D :: "dijkstra_state \<Rightarrow> string \<Rightarrow> score" where
  "dj_D st = read_score (dj_distances st)"

definition dj_snapshot :: "dijkstra_state \<Rightarrow> bool" where
  "dj_snapshot st = (dj_steps st \<noteq> [] \<and> distances (last (dj_steps st)) = Some (dj_distances st))"

lemma dj_D_push [simp]: "dj_D (dj_push nodes st cur p d) = dj_D st"
  by (simp add: dj_D_def)

lemma dj_D_unvisited [simp]: "dj_D (st\<lparr>dj_unvisited := u\<rparr>) = dj_D st"
  by (simp add: dj_D_def)

lemma dj_snapshot_push: "dj_snapshot (dj_push nodes st cur p d)"
  by (simp add: dj_snapshot_def dj_push_def)

lemma dj_snapshot_unvisited [simp]: "dj_snapshot (st\<lparr>dj_unvisited := u\<rparr>) = dj_snapshot st"
  by (simp add: dj_snapshot_def)

lemma dj_snapshot_relax: "dj_snapshot st \<Longrightarrow> dj_snapshot (dj_relax nodes c n st)"
  by (simp add: dj_relax_def Let_def dj_snapshot_push)

lemma dj_snapshot_neighbors: "dj_snapshot st \<Longrightarrow> dj_snapshot (dj_neighbors nodes c ns st)"
  by (induction ns arbitrary: st) (simp_all add: dj_snapshot_relax)

lemma dj_snapshot_next: "dj_snapshot st \<Longrightarrow> dj_snapshot (dj_next nodes st)"
  by (simp add: dj_next_def dj_snapshot_push split: option.splits)

lemma dj_D_next [simp]: "dj_D (dj_next nodes st) = dj_D st"
  by (simp add: dj_next_def split: option.splits)

lemma dj_D_relax:
  "dj_D (dj_relax nodes c n st) =
     (\<lambda>k. if nodeId n \<in> set (dj_unvisited st) \<and>
              lt (add_num (dj_D st c) (weight n)) (dj_D st (nodeId n)) \<and> k = nodeId n
           then add_num (dj_D st c) (weight n) else dj_D st k)"
  by (rule ext) (simp add: dj_relax_def Let_def dj_D_def read_score_update)

lemma dj_neighbors_core:
  assumes "dj_core adj ids s {c} (dj_D st) (set (dj_unvisited st))"
    and nn: "nonneg_weights adj" and c: "c \<in> ids" "c \<notin> set (dj_unvisited st)"
    and "set ns \<subseteq> set (neighbors adj c)"
  shows "dj_core adj ids s {c} (dj_D (dj_neighbors nodes c ns st)) (set (dj_unvisited st)) \<and>
         dj_D (dj_neighbors nodes c ns st) c = dj_D st c \<and>
         (\<forall>k. le_score (dj_D (dj_neighbors nodes c ns st) k) (dj_D st k)) \<and>
         (\<forall>n \<in> set ns. nodeId n \<in> set (dj_unvisited st) \<longrightarrow>
            le_score (dj_D (dj_neighbors nodes c ns st) (nodeId n)) (add_num (dj_D st c) (weight n)))"
  using assms(1,5) c(2)
proof (induction ns arbitrary: st)
  case Nil
  then show ?case by simp
next
  case (Cons n ns)
  let ?st1 = "dj_relax nodes c n st"
  let ?st2 = "dj_neighbors nodes c ns ?st1"
  from Cons.prems(2) have n: "n \<in> set (neighbors adj c)" and ns: "set ns \<subseteq> set (neighbors adj c)"
    by simp_all
  note r = core_relax [OF Cons.prems(1) nn c(1) Cons.prems(3) n dj_D_relax]
  have u1: "dj_unvisited ?st1 = dj_unvisited st" by simp
  from r(1) have core1: "dj_core adj ids s {c} (dj_D ?st1) (set (dj_unvisited ?st1))"
    by (simp only: u1)
  from Cons.prems(3) have c1: "c \<notin> set (dj_unvisited ?st1)" by simp
  note ih = Cons.IH [OF core1 ns c1]
  from ih have core2: "dj_core adj ids s {c} (dj_D ?st2) (set (dj_unvisited st))"
    by (simp only: u1)
  from ih r(3) have same: "dj_D ?st2 c = dj_D st c" by simp
  from ih have le2: "\<forall>k. le_score (dj_D ?st2 k) (dj_D ?st1 k)" by blast
  with r(2) have le: "\<forall>k. le_score (dj_D ?st2 k) (dj_D st k)"
    by (blast intro: le_score_trans)
  from ih r(3) have cov_ns: "\<forall>m \<in> set ns. nodeId m \<in> set (dj_unvisited st) \<longrightarrow>
            le_score (dj_D ?st2 (nodeId m)) (add_num (dj_D st c) (weight m))"
    by (simp only: u1) simp
  have cov_n: "nodeId n \<in> set (dj_unvisited st) \<longrightarrow>
            le_score (dj_D ?st2 (nodeId n)) (add_num (dj_D st c) (weight n))"
    using r(4) le2 by (blast intro: le_score_trans)
  from core2 same le cov_ns cov_n show ?case by simp
qed

subsection \<open>The invariant of the main loop\<close>

definition dj_inv :: "AdjacencyList \<Rightarrow> string set \<Rightarrow> string \<Rightarrow> dijkstra_state \<Rightarrow> bool" where
  "dj_inv adj ids s st =
     (dj_core adj ids s {} (dj_D st) (set (dj_unvisited st)) \<and> dj_snapshot st)"

lemma dj_select:
  assumes inv: "dj_inv adj ids s st" and nn: "nonneg_weights adj"
    and cl: "closed_adj adj ids" and s: "s \<in> ids"
    and scan: "min_scan (dj_distances st) (dj_unvisited st) (None, Infinity) = (Some c, sd)"
  shows "c \<in> set (dj_unvisited st)" and "c \<in> ids"
    and "\<exists>d. dj_D st c = Num d \<and> shortest adj s c d"
    and "dj_core adj ids s {c} (dj_D st) (set (dj_unvisited st) - {c})"
proof -
  note m = min_scan_Some [OF scan]
  from inv have core: "dj_core adj ids s {} (dj_D st) (set (dj_unvisited st))"
    by (simp add: dj_inv_def)
  from m(2) obtain dc where dc: "dj_D st c = Num dc" by (auto simp: dj_D_def)
  from m(3) have least: "\<forall>k \<in> set (dj_unvisited st). \<not> lt (dj_D st k) (dj_D st c)"
    by (simp add: dj_D_def)
  show "c \<in> set (dj_unvisited st)" by (rule m(1))
  with core_facts(1) [OF core] show "c \<in> ids" by blast
  note sel = core_select [OF core nn cl s m(1) dc least]
  from sel(2) dc show "\<exists>d. dj_D st c = Num d \<and> shortest adj s c d" by simp
  from sel(1) show "dj_core adj ids s {c} (dj_D st) (set (dj_unvisited st) - {c})" .
qed

lemma dj_inv_iter:
  assumes inv: "dj_inv adj ids s st" and nn: "nonneg_weights adj"
    and cl: "closed_adj adj ids" and s: "s \<in> ids"
    and scan: "min_scan (dj_distances st) (dj_unvisited st) (None, Infinity) = (Some c, sd)"
    and ns: "map_of adj c = Some ns"
  shows "dj_inv adj ids s
           (dj_next nodes (dj_neighbors nodes c ns
              (st\<lparr>dj_unvisited := set_delete (dj_unvisited st) c\<rparr>)))"
proof -
  let ?st1 = "st\<lparr>dj_unvisited := set_delete (dj_unvisited st) c\<rparr>"
  let ?st2 = "dj_neighbors nodes c ns ?st1"
  note sel = dj_select [OF inv nn cl s scan]
  have nbrs: "neighbors adj c = ns" using ns by (simp add: neighbors_def)
  from sel(4) have core1: "dj_core adj ids s {c} (dj_D ?st1) (set (dj_unvisited ?st1))"
    by simp
  have c1: "c \<notin> set (dj_unvisited ?st1)" by simp
  have sub: "set ns \<subseteq> set (neighbors adj c)" by (simp add: nbrs)
  note r = dj_neighbors_core [OF core1 nn sel(2) c1 sub, of nodes]
  from r have core2: "dj_core adj ids s {c} (dj_D ?st2) (set (dj_unvisited ?st1))" by blast
  from r have same: "dj_D ?st2 c = dj_D ?st1 c" by blast
  from r have cov: "\<forall>n \<in> set ns. nodeId n \<in> set (dj_unvisited ?st1) \<longrightarrow>
            le_score (dj_D ?st2 (nodeId n)) (add_num (dj_D ?st1 c) (weight n))" by blast
  have "dj_core adj ids s {} (dj_D ?st2) (set (dj_unvisited ?st1))"
    by (rule core_finish [OF core2]) (use cov same nbrs in simp)
  moreover from inv have "dj_snapshot (dj_next nodes ?st2)"
    by (intro dj_snapshot_next dj_snapshot_neighbors) (simp add: dj_inv_def)
  ultimately show ?thesis by (simp add: dj_inv_def)
qed

lemma dj_inv_init:
  assumes "s \<in> node_ids nodes"
  shows "dj_inv adj (node_ids nodes) s (dj_init nodes s)"
proof -
  have D: "dj_D (dj_init nodes s) =
      (\<lambda>k. if k = s then Num 0 else if k \<in> node_ids nodes then Infinity else NaN)"
    by (rule ext) (simp add: dj_D_def dj_init_fields)
  have "dj_core adj (node_ids nodes) s {} (dj_D (dj_init nodes s)) (set (dj_unvisited (dj_init nodes s)))"
    unfolding D dj_init_fields dj_core_def using assms by (auto intro: walk_start)
  then show ?thesis by (simp add: dj_inv_def dj_snapshot_def dj_init_fields)
qed

text \<open>When the scan finds nothing to select, every reachable node has been settled.\<close>

lemma dj_inv_exhausted:
  assumes inv: "dj_inv adj ids s st" and nn: "nonneg_weights adj"
    and cl: "closed_adj adj ids" and s: "s \<in> ids" and empty: "[] \<notin> ids"
    and ex: "dj_exhausted st" and w: "walk adj s v d"
  shows "\<exists>dv. dj_D st v = Num dv \<and> shortest adj s v dv"
proof -
  from inv have core: "dj_core adj ids s {} (dj_D st) (set (dj_unvisited st))"
    by (simp add: dj_inv_def)
  have none: "\<forall>k \<in> set (dj_unvisited st). \<not> lt (dj_D st k) Infinity"
  proof (cases "min_scan (dj_distances st) (dj_unvisited st) (None, Infinity)")
    case (Pair x sd)
    show ?thesis
    proof (cases x)
      case None
      with Pair show ?thesis using min_scan_None by (simp add: dj_D_def)
    next
      case (Some c)
      note m = min_scan_Some [OF Pair [unfolded Some]]
      from m(1) core_facts(1) [OF core] empty have "c \<noteq> []" by blast
      moreover from m(2) have "sd \<noteq> Infinity" by auto
      ultimately have "dj_unvisited st = []"
        using ex Pair Some by (simp add: dj_exhausted_def)
      then show ?thesis by simp
    qed
  qed
  from core_lower [OF core nn cl s w] have v: "v \<in> ids"
    and low: "v \<in> set (dj_unvisited st) \<longrightarrow> (\<exists>y \<in> set (dj_unvisited st). le_score (dj_D st y) (Num d))"
    by simp_all
  have "v \<notin> set (dj_unvisited st)"
  proof
    assume "v \<in> set (dj_unvisited st)"
    with low obtain y where y: "y \<in> set (dj_unvisited st)" "le_score (dj_D st y) (Num d)" by blast
    then have "lt (dj_D st y) Infinity" by (auto simp: le_score_Num)
    with none y(1) show False by blast
  qed
  with core_visited [OF core v] show ?thesis by blast
qed

subsection \<open>The predecessor object and the path walk\<close>

inductive chain :: "string option obj \<Rightarrow> string set \<Rightarrow> string \<Rightarrow> bool" for prev V where
  chain_root: "n \<in> V \<Longrightarrow> map_of prev n = Some None \<Longrightarrow> chain prev V n"
| chain_step: "n \<in> V \<Longrightarrow> map_of prev n = Some (Some p) \<Longrightarrow> chain prev V p \<Longrightarrow> chain prev V n"

lemma chain_build: "chain prev V n \<Longrightarrow> \<exists>p. build_path prev (Some n) acc = Some p"
proof (induction arbitrary: acc rule: chain.induct)
  case (chain_root n)
  then show ?case by (simp add: build_path.simps)
next
  case (chain_step n p)
  from chain_step.IH [of "n # acc"] chain_step.hyps(2) show ?case
    by (subst build_path.simps) simp
qed

lemma chain_mono:
  assumes "chain prev V n" "V \<subseteq> V'" "\<forall>k \<in> V. map_of prev' k = map_of prev k"
  shows "chain prev' V' n"
  using assms
proof (induction rule: chain.induct)
  case (chain_root n)
  then show ?case by (auto intro: chain.chain_root)
next
  case (chain_step n p)
  from chain_step.prems chain_step.hyps(1,2) have "n \<in> V'" "map_of prev' n = Some (Some p)"
    by auto
  moreover from chain_step.IH chain_step.prems have "chain prev' V' p" by blast
  ultimately show ?case by (rule chain.chain_step)
qed

definition dj_chain :: "string set \<Rightarrow> string option obj \<Rightarrow> string set \<Rightarrow> bool" where
  "dj_chain ids prev U =
     (U \<subseteq> ids \<and> dom (map_of prev) = ids \<and> (\<forall>k \<in> ids - U. chain prev (ids - U) k) \<and>
      (\<forall>k \<in> U. \<forall>p. map_of prev k = Some (Some p) \<longrightarrow> p \<in> ids - U))"

lemma dj_chain_build:
  assumes "dj_chain ids prev U" "k \<in> ids"
  shows "\<exists>p. build_path prev (Some k) [] = Some p"
proof (cases "k \<in> U")
  case False
  with assms have "chain prev (ids - U) k" by (simp add: dj_chain_def)
  then show ?thesis by (rule chain_build)
next
  case True
  from assms obtain v where v: "map_of prev k = Some v" by (auto simp: dj_chain_def)
  show ?thesis
  proof (cases v)
    case None
    with v show ?thesis by (simp add: build_path.simps)
  next
    case (Some p)
    with v True assms(1) have "chain prev (ids - U) p" by (simp add: dj_chain_def)
    from chain_build [OF this, of "[k]"] v Some show ?thesis
      by (subst build_path.simps) simp
  qed
qed

lemma dj_chain_delete:
  assumes ch: "dj_chain ids prev U" and c: "c \<in> U"
  shows "dj_chain ids prev (U - {c})"
proof -
  from ch have U: "U \<subseteq> ids" and dm: "dom (map_of prev) = ids"
    and old: "\<forall>k \<in> ids - U. chain prev (ids - U) k"
    and par: "\<forall>k \<in> U. \<forall>p. map_of prev k = Some (Some p) \<longrightarrow> p \<in> ids - U"
    by (simp_all add: dj_chain_def)
  let ?V' = "ids - (U - {c})"
  have sub: "ids - U \<subseteq> ?V'" by blast
  have up: "chain prev ?V' k" if "k \<in> ids - U" for k
    using old that sub by (blast intro: chain_mono)
  from c U have cV: "c \<in> ?V'" by blast
  from c U dm obtain v where v: "map_of prev c = Some v" by blast
  have cc: "chain prev ?V' c"
  proof (cases v)
    case None
    with v cV show ?thesis by (auto intro: chain_root)
  next
    case (Some p)
    with v par c have "p \<in> ids - U" by simp
    then have "chain prev ?V' p" by (rule up)
    with v Some cV show ?thesis by (auto intro: chain_step)
  qed
  have "\<forall>k \<in> ?V'. chain prev ?V' k"
  proof
    fix k assume "k \<in> ?V'"
    then have "k \<in> ids - U \<or> k = c" by blast
    with up cc show "chain prev ?V' k" by blast
  qed
  moreover have "\<forall>k \<in> U - {c}. \<forall>p. map_of prev k = Some (Some p) \<longrightarrow> p \<in> ?V'"
    using par by blast
  ultimately show ?thesis using U dm by (simp add: dj_chain_def) blast
qed

lemma dj_chain_update:
  assumes ch: "dj_chain ids prev U" and k: "k \<in> U" and c: "c \<in> ids" "c \<notin> U"
  shows "dj_chain ids (AList.update k (Some c) prev) U"
proof -
  from ch have U: "U \<subseteq> ids" and dm: "dom (map_of prev) = ids"
    and old: "\<forall>j \<in> ids - U. chain prev (ids - U) j"
    and par: "\<forall>j \<in> U. \<forall>p. map_of prev j = Some (Some p) \<longrightarrow> p \<in> ids - U"
    by (simp_all add: dj_chain_def)
  let ?prev = "AList.update k (Some c) prev"
  have m: "map_of ?prev = (map_of prev)(k \<mapsto> Some c)" by (rule update_conv')
  have "dom (map_of ?prev) = ids" using dm k U by (auto simp: m)
  moreover have "\<forall>j \<in> ids - U. chain ?prev (ids - U) j"
  proof
    fix j assume j: "j \<in> ids - U"
    with old have "chain prev (ids - U) j" by simp
    then show "chain ?prev (ids - U) j"
      by (rule chain_mono) (use k in \<open>auto simp: m\<close>)
  qed
  moreover have "\<forall>j \<in> U. \<forall>p. map_of ?prev j = Some (Some p) \<longrightarrow> p \<in> ids - U"
    using par c by (auto simp: m)
  ultimately show ?thesis using U by (simp add: dj_chain_def)
qed

definition dj_links :: "string set \<Rightarrow> dijkstra_state \<Rightarrow> bool" where
  "dj_links ids st = dj_chain ids (dj_previous st) (set (dj_unvisited st))"

lemma dj_links_push [simp]: "dj_links ids (dj_push nodes st cur p d) = dj_links ids st"
  by (simp add: dj_links_def)

lemma dj_links_relax:
  assumes "dj_links ids st" "c \<in> ids" "c \<notin> set (dj_unvisited st)"
  shows "dj_links ids (dj_relax nodes c n st)"
  using assms dj_chain_update [of ids "dj_previous st" "set (dj_unvisited st)" "nodeId n" c]
  by (simp add: dj_relax_def Let_def dj_links_def)

lemma dj_links_neighbors:
  assumes "dj_links ids st" "c \<in> ids" "c \<notin> set (dj_unvisited st)"
  shows "dj_links ids (dj_neighbors nodes c ns st)"
  using assms(1,3)
proof (induction ns arbitrary: st)
  case Nil
  then show ?case by simp
next
  case (Cons n ns)
  from Cons.prems assms(2) have "dj_links ids (dj_relax nodes c n st)"
    by (intro dj_links_relax)
  moreover from Cons.prems have "c \<notin> set (dj_unvisited (dj_relax nodes c n st))" by simp
  ultimately show ?case by (simp add: Cons.IH)
qed

lemma dj_links_next: "dj_links ids st \<Longrightarrow> dj_links ids (dj_next nodes st)"
  by (simp add: dj_next_def split: option.splits)

lemma dj_links_delete:
  assumes "dj_links ids st" "c \<in> set (dj_unvisited st)"
  shows "dj_links ids (st\<lparr>dj_unvisited := set_delete (dj_unvisited st) c\<rparr>)"
  using dj_chain_delete [of ids "dj_previous st" "set (dj_unvisited st)" c] assms
  by (simp add: dj_links_def)

lemma dj_links_iter:
  assumes "dj_links ids st" "c \<in> set (dj_unvisited st)"
  shows "dj_links ids (dj_next nodes (dj_neighbors nodes c ns
           (st\<lparr>dj_unvisited := set_delete (dj_unvisited st) c\<rparr>)))"
proof -
  from assms have "set (dj_unvisited st) \<subseteq> ids" by (simp add: dj_links_def dj_chain_def)
  with assms(2) have c: "c \<in> ids" by blast
  from dj_links_delete [OF assms]
  show ?thesis by (intro dj_links_next dj_links_neighbors c) simp_all
qed

lemma dj_links_init: "dj_links (node_ids nodes) (dj_init nodes s)"
  unfolding dj_links_def dj_chain_def
  by (auto simp: dj_init_fields dom_def split: if_splits)

subsection \<open>The Dijkstra runner returns\<close>

lemma dijkstra_loop_total:
  assumes "I st"
    and "\<And>st c sd ns. I st \<Longrightarrow> dj_unvisited st \<noteq> [] \<Longrightarrow>
        min_scan (dj_distances st) (dj_unvisited st) (None, Infinity) = (Some c, sd) \<Longrightarrow>
        c \<noteq> [] \<Longrightarrow> sd \<noteq> Infinity \<Longrightarrow> \<not> (truthy_string tgt \<and> tgt = Some c) \<Longrightarrow>
        map_of adj c = Some ns \<Longrightarrow>
        I (dj_next nodes (dj_neighbors nodes c ns
             (st\<lparr>dj_unvisited := set_delete (dj_unvisited st) c\<rparr>)))"
    and "\<And>st c sd. I st \<Longrightarrow>
        min_scan (dj_distances st) (dj_unvisited st) (None, Infinity) = (Some c, sd) \<Longrightarrow>
        c \<in> dom (map_of adj) \<and> (\<exists>p. build_path (dj_previous st) (Some c) [] = Some p)"
  shows "\<exists>st'. dijkstra_loop nodes adj tgt st = Some (Inr st')"
  using assms
proof (induction nodes adj tgt st rule: dijkstra_loop.induct)
  case (1 nodes adj tgt st)
  note init = "1.prems"(1) and iter = "1.prems"(2) and key = "1.prems"(3)
  obtain x sd where scan: "min_scan (dj_distances st) (dj_unvisited st) (None, Infinity) = (x, sd)"
    by (cases "min_scan (dj_distances st) (dj_unvisited st) (None, Infinity)")
  show ?case
  proof (cases "dj_exhausted st")
    case True
    with scan show ?thesis
      by (subst dijkstra_loop.simps) (auto simp: dj_exhausted_def split: option.splits)
  next
    case False
    with scan obtain c where ne: "dj_unvisited st \<noteq> []" and x: "x = Some c"
      and c: "c \<noteq> []" and sd: "sd \<noteq> Infinity"
      by (auto simp: dj_exhausted_def split: option.splits)
    note scan' = scan [unfolded x]
    have csd: "\<not> (c = [] \<or> sd = Infinity)" using c sd by simp
    from key [OF init scan'] obtain ns p where ns: "map_of adj c = Some ns"
      and p: "build_path (dj_previous st) (Some c) [] = Some p" by auto
    show ?thesis
    proof (cases "truthy_string tgt \<and> tgt = Some c")
      case True
      then have t: "truthy_string tgt" "tgt = Some c" by blast+
      show ?thesis
        by (subst dijkstra_loop.simps) (use ne scan' c sd t p in simp)
    next
      case False
      then have nt: "\<not> (truthy_string tgt \<and> Some c = tgt)" by auto
      from iter [OF init ne scan' c sd False ns]
      have "\<exists>st'. dijkstra_loop nodes adj tgt (dj_next nodes (dj_neighbors nodes c ns
             (st\<lparr>dj_unvisited := set_delete (dj_unvisited st) c\<rparr>))) = Some (Inr st')"
        by (rule "1.IH" [OF ne scan' [symmetric] refl csd nt ns _ iter key])
      moreover have "\<not> (truthy_string tgt \<and> Some c = tgt)" by (rule nt)
      ultimately show ?thesis
        by (subst dijkstra_loop.simps) (auto simp: ne scan' c sd ns)
    qed
  qed
qed

lemma dj_inv_exhausted_settled:
  assumes inv: "dj_inv adj ids s st" and nn: "nonneg_weights adj"
    and cl: "closed_adj adj ids" and s: "s \<in> ids" and empty: "[] \<notin> ids"
    and ex: "dj_exhausted st" and w: "walk adj s v d"
  shows "v \<in> ids - set (dj_unvisited st)"
proof -
  from inv have core: "dj_core adj ids s {} (dj_D st) (set (dj_unvisited st))"
    by (simp add: dj_inv_def)
  have none: "\<forall>k \<in> set (dj_unvisited st). \<not> lt (dj_D st k) Infinity"
  proof (cases "min_scan (dj_distances st) (dj_unvisited st) (None, Infinity)")
    case (Pair x sd)
    show ?thesis
    proof (cases x)
      case None
      with Pair show ?thesis using min_scan_None by (simp add: dj_D_def)
    next
      case (Some c)
      note m = min_scan_Some [OF Pair [unfolded Some]]
      from m(1) core_facts(1) [OF core] empty have "c \<noteq> []" by blast
      moreover from m(2) have "sd \<noteq> Infinity" by auto
      ultimately have "dj_unvisited st = []"
        using ex Pair Some by (simp add: dj_exhausted_def)
      then show ?thesis by simp
    qed
  qed
  from core_lower [OF core nn cl s w] have v: "v \<in> ids"
    and low: "v \<in> set (dj_unvisited st) \<longrightarrow> (\<exists>y \<in> set (dj_unvisited st). le_score (dj_D st y) (Num d))"
    by simp_all
  have "v \<notin> set (dj_unvisited st)"
  proof
    assume "v \<in> set (dj_unvisited st)"
    with low obtain y where y: "y \<in> set (dj_unvisited st)" "le_score (dj_D st y) (Num d)" by blast
    then have "lt (dj_D st y) Infinity" by (auto simp: le_score_Num)
    with none y(1) show False by blast
  qed
  with v show ?thesis by simp
qed

lemma set_dj_visited: "set (dj_visited nodes U) = node_ids nodes - set U"
  by (auto simp: dj_visited_def node_ids_def)

definition dj_seen :: "Node list \<Rightarrow> dijkstra_state \<Rightarrow> bool" where
  "dj_seen nodes st =
     (dj_steps st \<noteq> [] \<and>
      set (visited (last (dj_steps st))) \<subseteq> node_ids nodes - set (dj_unvisited st))"

definition dj_pending :: "string option \<Rightarrow> dijkstra_state \<Rightarrow> bool" where
  "dj_pending tgt st =
     (\<forall>t. truthy_string tgt \<and> tgt = Some t \<and> t \<in> dom (map_of (dj_previous st)) \<longrightarrow>
          t \<in> set (dj_unvisited st))"

lemma dj_seen_push: "dj_seen nodes (dj_push nodes st cur p d)"
  by (simp add: dj_seen_def dj_push_def set_dj_visited)

lemma dj_seen_relax: "dj_seen nodes st \<Longrightarrow> dj_seen nodes (dj_relax nodes c n st)"
  by (simp add: dj_relax_def Let_def dj_seen_push)

lemma dj_seen_neighbors: "dj_seen nodes st \<Longrightarrow> dj_seen nodes (dj_neighbors nodes c ns st)"
  by (induction ns arbitrary: st) (simp_all add: dj_seen_relax)

lemma dj_seen_next: "dj_seen nodes st \<Longrightarrow> dj_seen nodes (dj_next nodes st)"
  by (simp add: dj_next_def dj_seen_push split: option.splits)

lemma dj_seen_delete:
  "dj_seen nodes st \<Longrightarrow> dj_seen nodes (st\<lparr>dj_unvisited := set_delete (dj_unvisited st) c\<rparr>)"
  by (auto simp: dj_seen_def)

lemma dom_previous_relax:
  "nodeId n \<in> set (dj_unvisited st) \<longrightarrow> nodeId n \<in> dom (map_of (dj_previous st)) \<Longrightarrow>
   dom (map_of (dj_previous (dj_relax nodes c n st))) = dom (map_of (dj_previous st))"
  by (auto simp: dj_relax_def Let_def update_conv')

lemma dj_pending_relax:
  assumes "dj_pending tgt st" "set (dj_unvisited st) \<subseteq> dom (map_of (dj_previous st))"
  shows "dj_pending tgt (dj_relax nodes c n st) \<and>
         set (dj_unvisited (dj_relax nodes c n st)) \<subseteq> dom (map_of (dj_previous (dj_relax nodes c n st)))"
proof -
  have "dom (map_of (dj_previous (dj_relax nodes c n st))) = dom (map_of (dj_previous st))"
    by (rule dom_previous_relax) (use assms(2) in blast)
  with assms show ?thesis by (simp add: dj_pending_def)
qed

lemma dj_pending_neighbors:
  assumes "dj_pending tgt st" "set (dj_unvisited st) \<subseteq> dom (map_of (dj_previous st))"
  shows "dj_pending tgt (dj_neighbors nodes c ns st)"
  using assms
proof (induction ns arbitrary: st)
  case Nil
  then show ?case by simp
next
  case (Cons n ns)
  from dj_pending_relax [OF Cons.prems] show ?case by (simp add: Cons.IH)
qed

lemma dj_pending_next: "dj_pending tgt st \<Longrightarrow> dj_pending tgt (dj_next nodes st)"
  by (auto simp: dj_next_def dj_pending_def split: option.splits)

text \<open>The invariant of a whole run.\<close>

definition dj_run ::
  "AdjacencyList \<Rightarrow> Node list \<Rightarrow> string \<Rightarrow> string option \<Rightarrow> dijkstra_state \<Rightarrow> bool" where
  "dj_run adj nodes s tgt st =
     (dj_inv adj (node_ids nodes) s st \<and> dj_links (node_ids nodes) st \<and> dj_seen nodes st \<and>
      dj_pending tgt st)"

lemma dj_run_iter:
  assumes run: "dj_run adj nodes s tgt st" and nn: "nonneg_weights adj"
    and cl: "closed_adj adj (node_ids nodes)" and s: "s \<in> node_ids nodes"
    and scan: "min_scan (dj_distances st) (dj_unvisited st) (None, Infinity) = (Some c, sd)"
    and nt: "\<not> (truthy_string tgt \<and> tgt = Some c)"
    and ns: "map_of adj c = Some ns"
  shows "dj_run adj nodes s tgt
           (dj_next nodes (dj_neighbors nodes c ns
              (st\<lparr>dj_unvisited := set_delete (dj_unvisited st) c\<rparr>)))"
proof -
  let ?st1 = "st\<lparr>dj_unvisited := set_delete (dj_unvisited st) c\<rparr>"
  from run have inv: "dj_inv adj (node_ids nodes) s st" and links: "dj_links (node_ids nodes) st"
    and seen: "dj_seen nodes st" and pend: "dj_pending tgt st"
    by (simp_all add: dj_run_def)
  note c = min_scan_Some(1) [OF scan]
  from links have dm: "dom (map_of (dj_previous st)) = node_ids nodes"
    and U: "set (dj_unvisited st) \<subseteq> node_ids nodes"
    by (simp_all add: dj_links_def dj_chain_def)
  from pend nt have "dj_pending tgt ?st1" by (auto simp: dj_pending_def)
  moreover from dm U have "set (dj_unvisited ?st1) \<subseteq> dom (map_of (dj_previous ?st1))" by auto
  ultimately have "dj_pending tgt (dj_next nodes (dj_neighbors nodes c ns ?st1))"
    by (intro dj_pending_next dj_pending_neighbors)
  moreover have "dj_seen nodes (dj_next nodes (dj_neighbors nodes c ns ?st1))"
    by (intro dj_seen_next dj_seen_neighbors dj_seen_delete seen)
  moreover note dj_inv_iter [OF inv nn cl s scan ns, of nodes] dj_links_iter [OF links c, of nodes ns]
  ultimately show ?thesis by (simp add: dj_run_def)
qed

lemma dj_run_init:
  assumes "s \<in> node_ids nodes"
  shows "dj_run adj nodes s tgt (dj_init nodes s)"
proof -
  have "dj_seen nodes (dj_init nodes s)"
    by (simp add: dj_seen_def dj_init_def Let_def)
  moreover have "dj_pending tgt (dj_init nodes s)"
    by (auto simp: dj_pending_def dj_init_fields dom_def split: if_splits)
  ultimately show ?thesis
    using dj_inv_init [OF assms, of adj] dj_links_init [of nodes s] by (simp add: dj_run_def)
qed

definition dj_settled :: "AdjacencyList \<Rightarrow> Node list \<Rightarrow> string \<Rightarrow> dijkstra_state \<Rightarrow> bool" where
  "dj_settled adj nodes s st =
     (\<forall>v \<in> node_ids nodes - set (dj_unvisited st). \<exists>dv. dj_D st v = Num dv \<and> shortest adj s v dv)"

definition dj_post ::
  "AdjacencyList \<Rightarrow> Node list \<Rightarrow> string \<Rightarrow> string option \<Rightarrow> dijkstra_state \<Rightarrow> bool" where
  "dj_post adj nodes s tgt st =
     (dj_snapshot st \<and> dj_links (node_ids nodes) st \<and> dj_seen nodes st \<and>
      dj_settled adj nodes s st \<and>
      (dj_exhausted st \<and> dj_run adj nodes s tgt st \<or>
       (\<exists>t. truthy_string tgt \<and> tgt = Some t \<and> t \<in> set (visited (last (dj_steps st))))))"

lemma dj_run_settled: "dj_run adj nodes s tgt st \<Longrightarrow> dj_settled adj nodes s st"
  unfolding dj_run_def dj_inv_def dj_settled_def using core_visited by blast

lemma dijkstra_loop_post:
  assumes adj: "dom (map_of adj) = node_ids nodes" and nn: "nonneg_weights adj"
    and cl: "closed_adj adj (node_ids nodes)" and s: "s \<in> node_ids nodes"
  shows "\<exists>st. dijkstra_loop nodes adj tgt (dj_init nodes s) = Some (Inr st) \<and>
              dj_post adj nodes s tgt st"
proof -
  let ?I = "dj_run adj nodes s tgt"
  have init: "?I (dj_init nodes s)" using s by (rule dj_run_init)
  have iter: "?I (dj_next nodes (dj_neighbors nodes c ns
             (st\<lparr>dj_unvisited := set_delete (dj_unvisited st) c\<rparr>)))"
    if "?I st" "min_scan (dj_distances st) (dj_unvisited st) (None, Infinity) = (Some c, sd)"
      "\<not> (truthy_string tgt \<and> tgt = Some c)" "map_of adj c = Some ns" for st c sd ns
    using that(1) nn cl s that(2-4) by (rule dj_run_iter)
  have key: "c \<in> dom (map_of adj) \<and> (\<exists>p. build_path (dj_previous st) (Some c) [] = Some p)"
    if "?I st" "min_scan (dj_distances st) (dj_unvisited st) (None, Infinity) = (Some c, sd)"
    for st c sd
  proof -
    from that(1) have links: "dj_chain (node_ids nodes) (dj_previous st) (set (dj_unvisited st))"
      by (simp add: dj_run_def dj_links_def)
    then have "set (dj_unvisited st) \<subseteq> node_ids nodes" by (simp add: dj_chain_def)
    with min_scan_Some(1) [OF that(2)] have c: "c \<in> node_ids nodes" by blast
    with dj_chain_build [OF links c] adj show ?thesis by simp
  qed
  have "\<exists>st'. dijkstra_loop nodes adj tgt (dj_init nodes s) = Some (Inr st')"
  proof (rule dijkstra_loop_total [where I = ?I])
    show "?I (dj_init nodes s)" by (rule init)
  next
    fix st c sd ns
    assume "?I st" "min_scan (dj_distances st) (dj_unvisited st) (None, Infinity) = (Some c, sd)"
      "\<not> (truthy_string tgt \<and> tgt = Some c)" "map_of adj c = Some ns"
    then show "?I (dj_next nodes (dj_neighbors nodes c ns
             (st\<lparr>dj_unvisited := set_delete (dj_unvisited st) c\<rparr>)))" by (rule iter)
  next
    fix st c sd
    assume "?I st" "min_scan (dj_distances st) (dj_unvisited st) (None, Infinity) = (Some c, sd)"
    then show "c \<in> dom (map_of adj) \<and> (\<exists>p. build_path (dj_previous st) (Some c) [] = Some p)"
      by (rule key)
  qed
  then obtain st where run: "dijkstra_loop nodes adj tgt (dj_init nodes s) = Some (Inr st)"
    by blast
  have "dj_post adj nodes s tgt st"
  proof (rule dijkstra_loop_rule [where I = ?I, OF run init])
    fix st c sd ns
    assume "?I st" "min_scan (dj_distances st) (dj_unvisited st) (None, Infinity) = (Some c, sd)"
      "\<not> (truthy_string tgt \<and> tgt = Some c)" "map_of adj c = Some ns"
    then show "?I (dj_next nodes (dj_neighbors nodes c ns
             (st\<lparr>dj_unvisited := set_delete (dj_unvisited st) c\<rparr>)))" by (rule iter)
  next
    fix st assume I: "?I st" and ex: "dj_exhausted st"
    from I have "dj_snapshot st" "dj_links (node_ids nodes) st" "dj_seen nodes st"
      by (simp_all add: dj_run_def dj_inv_def)
    with dj_run_settled [OF I] I ex show "dj_post adj nodes s tgt st"
      by (simp add: dj_post_def)
  next
    fix st c sd p
    assume I: "?I st"
      and scan: "min_scan (dj_distances st) (dj_unvisited st) (None, Infinity) = (Some c, sd)"
      and t: "truthy_string tgt" "tgt = Some c"
    let ?st1 = "st\<lparr>dj_unvisited := set_delete (dj_unvisited st) c\<rparr>"
    let ?st' = "dj_push nodes ?st1 (Some c) (Some p)
        (TargetReachedWithDistance c (map_of (dj_distances st) c))"
    from I have inv: "dj_inv adj (node_ids nodes) s st" and links: "dj_links (node_ids nodes) st"
      by (simp_all add: dj_run_def)
    note sel = dj_select [OF inv nn cl s scan]
    have "dj_snapshot ?st'" by (rule dj_snapshot_push)
    moreover have "dj_links (node_ids nodes) ?st'"
      using dj_links_delete [OF links sel(1)] by simp
    moreover have "dj_seen nodes ?st'" by (rule dj_seen_push)
    moreover have "dj_settled adj nodes s ?st'"
      unfolding dj_settled_def using core_visited [OF sel(4)] by simp
    moreover have "c \<in> set (visited (last (dj_steps ?st')))"
      using sel(2) by (simp add: dj_push_def set_dj_visited)
    ultimately show "dj_post adj nodes s tgt ?st'"
      using t unfolding dj_post_def by blast
  qed
  with run show ?thesis by blast
qed

lemma dj_final_post:
  assumes post: "dj_post adj nodes s tgt st"
  shows "\<exists>st'. dj_final nodes tgt st = Some (Inr st') \<and> dj_unvisited st' = dj_unvisited st \<and>
           dj_distances st' = dj_distances st \<and> dj_snapshot st' \<and> dj_seen nodes st' \<and>
           set (visited (last (dj_steps st))) \<subseteq> set (visited (last (dj_steps st')))"
proof -
  from post have snap: "dj_snapshot st" and seen: "dj_seen nodes st"
    and links: "dj_chain (node_ids nodes) (dj_previous st) (set (dj_unvisited st))"
    by (simp_all add: dj_post_def dj_links_def)
  from snap have ne: "dj_steps st \<noteq> []" by (simp add: dj_snapshot_def)
  show ?thesis
  proof (cases "\<exists>t. tgt = Some t \<and> t \<noteq> [] \<and> map_of (dj_previous st) t \<noteq> None")
    case False
    with snap seen show ?thesis
      by (auto simp: dj_final_def split: option.splits)
  next
    case True
    then obtain t where t: "tgt = Some t" "t \<noteq> []" "map_of (dj_previous st) t \<noteq> None" by blast
    from links t(3) have "t \<in> node_ids nodes" by (auto simp: dj_chain_def)
    from dj_chain_build [OF links this] obtain p where
      p: "build_path (dj_previous st) (Some t) [] = Some p" by blast
    show ?thesis
    proof (cases "path (last (dj_steps st)) = None")
      case True
      with t p ne have "dj_final nodes tgt st =
          Some (Inr (dj_push nodes st (Some t) (Some p) (FinalShortestPath t p)))"
        by (simp add: dj_final_def)
      moreover have "set (visited (last (dj_steps st)))
          \<subseteq> set (visited (last (dj_steps (dj_push nodes st (Some t) (Some p) (FinalShortestPath t p)))))"
        using seen by (simp add: dj_seen_def dj_push_def set_dj_visited)
      ultimately show ?thesis
        by (simp add: dj_snapshot_push dj_seen_push)
    next
      case False
      with t p ne have "dj_final nodes tgt st = Some (Inr st)"
        by (auto simp: dj_final_def)
      with snap seen show ?thesis by simp
    qed
  qed
qed

subsection \<open>The adjacency projection of a built graph\<close>

lemma createAdjacencyList_neighbors:
  assumes "createAdjacencyList nodes edges = Inr adj" "n \<in> set (neighbors adj a)"
  shows "\<exists>e \<in> set edges. (a, n) \<in> edge_entries e"
proof -
  from assms(2) have "(a, n) \<in> entries adj" by (simp add: entries_def)
  with createAdjacencyList_Inr(2) [OF assms(1)] show ?thesis by simp
qed

lemma createAdjacencyList_closed:
  assumes "createAdjacencyList nodes edges = Inr adj"
  shows "closed_adj adj (node_ids nodes)"
  unfolding closed_adj_def
proof (intro allI ballI)
  fix a n assume "n \<in> set (neighbors adj a)"
  from createAdjacencyList_neighbors [OF assms this] obtain e where
    e: "e \<in> set edges" "(a, n) \<in> edge_entries e" by blast
  from createAdjacencyList_Inr(3) [OF assms] e(1)
  have "edge_source e \<in> node_ids nodes \<and> edge_target e \<in> node_ids nodes"
    by (simp add: edges_known_def list_all_iff)
  with e(2) show "nodeId n \<in> node_ids nodes" by (auto simp: edge_entries_def)
qed

lemma createAdjacencyList_weights:
  assumes "createAdjacencyList nodes edges = Inr adj"
    and "\<forall>e \<in> set edges. c \<le> effective_weight (edge_weight e)"
    and "n \<in> set (neighbors adj a)"
  shows "c \<le> weight n"
proof -
  from createAdjacencyList_neighbors [OF assms(1,3)] obtain e where
    e: "e \<in> set edges" "(a, n) \<in> edge_entries e" by blast
  from e(2) have "weight n = effective_weight (edge_weight e)" by (auto simp: edge_entries_def)
  with assms(2) e(1) show ?thesis by simp
qed

lemma createAdjacencyList_nonneg:
  assumes "createAdjacencyList nodes edges = Inr adj"
    and "\<forall>e \<in> set edges. 0 \<le> effective_weight (edge_weight e)"
  shows "nonneg_weights adj"
  unfolding nonneg_weights_def using createAdjacencyList_weights [OF assms] by blast

lemma createAdjacencyList_edge:
  assumes "createAdjacencyList nodes edges = Inr adj" "e \<in> set edges"
  shows "\<lparr>nodeId = edge_target e, weight = effective_weight (edge_weight e)\<rparr>
           \<in> set (neighbors adj (edge_source e))"
    and "\<lparr>nodeId = edge_source e, weight = effective_weight (edge_weight e)\<rparr>
           \<in> set (neighbors adj (edge_target e))"
proof -
  from assms(2) have "edge_entries e \<subseteq> entries adj"
    unfolding createAdjacencyList_Inr(2) [OF assms(1)] by blast
  then show "\<lparr>nodeId = edge_target e, weight = effective_weight (edge_weight e)\<rparr>
           \<in> set (neighbors adj (edge_source e))"
    and "\<lparr>nodeId = edge_source e, weight = effective_weight (edge_weight e)\<rparr>
           \<in> set (neighbors adj (edge_target e))"
    by (simp_all add: edge_entries_def entries_def)
qed

subsection \<open>The result of a run\<close>

lemma read_score_Num: "read_score m k = Num d \<Longrightarrow> map_of m k = Some (Num d)"
  by (simp add: read_score_def split: option.splits)

lemma shortest_unique: "shortest adj s v d \<Longrightarrow> shortest adj s v d' \<Longrightarrow> d = d'"
  unfolding shortest_def by (meson order_antisym)

definition dj_complete ::
  "AdjacencyList \<Rightarrow> Node list \<Rightarrow> string \<Rightarrow> string option \<Rightarrow> dijkstra_state \<Rightarrow> bool" where
  "dj_complete adj nodes s tgt st =
     (if truthy_string tgt
      then \<forall>d. walk adj s (the tgt) d \<longrightarrow> the tgt \<in> set (visited (last (dj_steps st)))
      else \<forall>v d. walk adj s v d \<longrightarrow> v \<in> node_ids nodes - set (dj_unvisited st))"

lemma dj_post_complete:
  assumes post: "dj_post adj nodes s tgt st" and nn: "nonneg_weights adj"
    and cl: "closed_adj adj (node_ids nodes)" and s: "s \<in> node_ids nodes"
    and empty: "[] \<notin> node_ids nodes"
  shows "dj_complete adj nodes s tgt st"
proof -
  from post consider
    (exhausted) "dj_exhausted st" "dj_run adj nodes s tgt st"
    | (hit) t where "truthy_string tgt" "tgt = Some t" "t \<in> set (visited (last (dj_steps st)))"
    unfolding dj_post_def by blast
  then show ?thesis
  proof cases
    case exhausted
    from exhausted(2) have inv: "dj_inv adj (node_ids nodes) s st"
      and links: "dj_links (node_ids nodes) st" and pend: "dj_pending tgt st"
      by (simp_all add: dj_run_def)
    have all: "v \<in> node_ids nodes - set (dj_unvisited st)" if "walk adj s v d" for v d
      using inv nn cl s empty exhausted(1) that by (rule dj_inv_exhausted_settled)
    from links have dm: "dom (map_of (dj_previous st)) = node_ids nodes"
      by (simp add: dj_links_def dj_chain_def)
    show ?thesis
    proof (cases "truthy_string tgt")
      case False
      with all show ?thesis by (simp add: dj_complete_def)
    next
      case True
      then obtain t where t: "tgt = Some t" by (cases tgt) (simp_all add: truthy_string_def)
      have "\<not> walk adj s t d" for d
      proof
        assume "walk adj s t d"
        from all [OF this] have "t \<in> node_ids nodes" "t \<notin> set (dj_unvisited st)" by simp_all
        with pend True t dm show False by (simp add: dj_pending_def)
      qed
      with True t show ?thesis by (simp add: dj_complete_def)
    qed
  next
    case hit
    then show ?thesis by (simp add: dj_complete_def)
  qed
qed

lemma dj_complete_final:
  assumes "dj_complete adj nodes s tgt st" "dj_unvisited st' = dj_unvisited st"
    "set (visited (last (dj_steps st))) \<subseteq> set (visited (last (dj_steps st')))"
  shows "dj_complete adj nodes s tgt st'"
  using assms unfolding dj_complete_def by (simp split: if_splits) blast

lemma executeDijkstra_post:
  assumes adj: "createAdjacencyList nodes edges = Inr adj" and s: "s \<in> node_ids nodes"
    and nn: "nonneg_weights adj"
  shows "\<exists>r st. executeDijkstra nodes edges s tgt = Some (Inr r) \<and> steps r = dj_steps st \<and>
           dj_snapshot st \<and> dj_seen nodes st \<and> dj_settled adj nodes s st \<and>
           ([] \<notin> node_ids nodes \<longrightarrow> dj_complete adj nodes s tgt st)"
proof -
  note dom = createAdjacencyList_Inr(1) [OF adj]
  note cl = createAdjacencyList_closed [OF adj]
  from dijkstra_loop_post [OF dom nn cl s] obtain st where
    run: "dijkstra_loop nodes adj tgt (dj_init nodes s) = Some (Inr st)"
    and post: "dj_post adj nodes s tgt st" by blast
  from dj_final_post [OF post] obtain st' where
    fin: "dj_final nodes tgt st = Some (Inr st')"
    and same: "dj_unvisited st' = dj_unvisited st" "dj_distances st' = dj_distances st"
    and snap: "dj_snapshot st'" and seen: "dj_seen nodes st'"
    and sub: "set (visited (last (dj_steps st))) \<subseteq> set (visited (last (dj_steps st')))"
    by blast
  from post have "dj_settled adj nodes s st" by (simp add: dj_post_def)
  with same have settled: "dj_settled adj nodes s st'" by (simp add: dj_settled_def dj_D_def)
  have complete: "dj_complete adj nodes s tgt st'" if "[] \<notin> node_ids nodes"
    using dj_post_complete [OF post nn cl s that] same(1) sub by (rule dj_complete_final)
  have "\<exists>r. executeDijkstra nodes edges s tgt = Some (Inr r) \<and> steps r = dj_steps st'"
    by (simp add: executeDijkstra_def adj run fin)
  with snap seen settled complete show ?thesis by blast
qed

lemma dijkstra_loop_returns:
  assumes "dom (map_of adj) = node_ids nodes"
  shows "\<exists>st. dijkstra_loop nodes adj tgt (dj_init nodes s) = Some (Inr st)"
proof (rule dijkstra_loop_total [where I = "dj_links (node_ids nodes)"])
  show "dj_links (node_ids nodes) (dj_init nodes s)" by (rule dj_links_init)
next
  fix st c sd ns
  assume "dj_links (node_ids nodes) st"
    "min_scan (dj_distances st) (dj_unvisited st) (None, Infinity) = (Some c, sd)"
  then show "dj_links (node_ids nodes) (dj_next nodes (dj_neighbors nodes c ns
             (st\<lparr>dj_unvisited := set_delete (dj_unvisited st) c\<rparr>)))"
    using dj_links_iter min_scan_Some(1) by blast
next
  fix st c sd
  assume links: "dj_links (node_ids nodes) st"
    and scan: "min_scan (dj_distances st) (dj_unvisited st) (None, Infinity) = (Some c, sd)"
  from links have ch: "dj_chain (node_ids nodes) (dj_previous st) (set (dj_unvisited st))"
    by (simp add: dj_links_def)
  then have "set (dj_unvisited st) \<subseteq> node_ids nodes" by (simp add: dj_chain_def)
  with min_scan_Some(1) [OF scan] have c: "c \<in> node_ids nodes" by blast
  with dj_chain_build [OF ch c] assms
  show "c \<in> dom (map_of adj) \<and> (\<exists>p. build_path (dj_previous st) (Some c) [] = Some p)" by simp
qed

lemma dijkstra_no_target_exhausts:
  assumes adj: "createAdjacencyList nodes edges = Inr adj"
  shows "\<exists>st r. dijkstra_loop nodes adj None (dj_init nodes s) = Some (Inr st) \<and>
           dj_exhausted st \<and> executeDijkstra nodes edges s None = Some (Inr r) \<and>
           steps r = dj_steps st"
proof -
  from dijkstra_loop_returns [OF createAdjacencyList_Inr(1) [OF adj]] obtain st
    where run: "dijkstra_loop nodes adj None (dj_init nodes s) = Some (Inr st)" by blast
  have "dj_exhausted st"
    by (rule dijkstra_loop_rule [where I = "\<lambda>_. True", OF run])
      (simp_all add: truthy_string_def)
  moreover have "\<exists>r. executeDijkstra nodes edges s None = Some (Inr r) \<and> steps r = dj_steps st"
    by (simp add: executeDijkstra_def adj run dj_final_def)
  ultimately show ?thesis using run by blast
qed

lemma walk_unit_weights:
  assumes "walk adj s v d" "\<forall>a. \<forall>n \<in> set (neighbors adj a). 1 \<le> weight n"
  shows "0 \<le> d \<and> (v \<noteq> s \<longrightarrow> 1 \<le> d)"
  using assms
proof (induction rule: walk.induct)
  case walk_start
  show ?case by simp
next
  case (walk_step u d n)
  then have "0 \<le> d" "1 \<le> weight n" by simp_all
  then show ?case by simp
qed

lemma effective_weight_nonzero: "effective_weight w \<noteq> 0"
  by (simp add: effective_weight_def split: option.splits)

lemma walk_positive:
  assumes "walk adj s v d" "\<forall>a. \<forall>n \<in> set (neighbors adj a). 0 < weight n"
  shows "0 \<le> d \<and> (v \<noteq> s \<longrightarrow> 0 < d)"
  using assms
proof (induction rule: walk.induct)
  case walk_start
  show ?case by simp
next
  case (walk_step u d n)
  then have "0 \<le> d" "0 < weight n" by simp_all
  then show ?case by simp
qed

lemma createAdjacencyList_positive:
  assumes "createAdjacencyList nodes edges = Inr adj"
    and "\<forall>e \<in> set edges. 0 \<le> effective_weight (edge_weight e)"
    and "n \<in> set (neighbors adj a)"
  shows "0 < weight n"
proof -
  from createAdjacencyList_neighbors [OF assms(1,3)] obtain e where
    e: "e \<in> set edges" "(a, n) \<in> edge_entries e" by blast
  from e(2) have "weight n = effective_weight (edge_weight e)" by (auto simp: edge_entries_def)
  with assms(2) e(1) effective_weight_nonzero [of "edge_weight e"] show ?thesis by auto
qed

lemma executeDijkstra_distance:
  assumes adj: "createAdjacencyList nodes edges = Inr adj" and s: "s \<in> node_ids nodes"
    and empty: "[] \<notin> node_ids nodes"
    and nn: "\<forall>e \<in> set edges. 0 \<le> effective_weight (edge_weight e)"
    and tgt: "tgt = None \<or> tgt = Some v" and w: "walk adj s v d"
  shows "\<exists>r dm dv. executeDijkstra nodes edges s tgt = Some (Inr r) \<and> steps r \<noteq> [] \<and>
           distances (last (steps r)) = Some dm \<and> map_of dm v = Some (Num dv) \<and>
           shortest adj s v dv"
proof -
  from executeDijkstra_post [OF adj s createAdjacencyList_nonneg [OF adj nn], of tgt] empty
  obtain r st where
    r: "executeDijkstra nodes edges s tgt = Some (Inr r)" "steps r = dj_steps st"
    and snap: "dj_snapshot st" and seen: "dj_seen nodes st"
    and settled: "dj_settled adj nodes s st" and complete: "dj_complete adj nodes s tgt st"
    by blast
  from walk_in_ids [OF createAdjacencyList_closed [OF adj] s w] have v: "v \<in> node_ids nodes" .
  with empty have ne: "v \<noteq> []" by blast
  have "v \<in> node_ids nodes - set (dj_unvisited st)"
  proof (cases tgt)
    case None
    with complete w show ?thesis by (auto simp: dj_complete_def truthy_string_def)
  next
    case (Some t)
    with tgt have "tgt = Some v" by simp
    with complete w ne have "v \<in> set (visited (last (dj_steps st)))"
      by (auto simp: dj_complete_def truthy_string_def)
    with seen show ?thesis unfolding dj_seen_def by blast
  qed
  with settled obtain dv where dv: "dj_D st v = Num dv" "shortest adj s v dv"
    unfolding dj_settled_def by blast
  from dv(1) have "map_of (dj_distances st) v = Some (Num dv)"
    unfolding dj_D_def by (rule read_score_Num)
  moreover from snap r(2) have "steps r \<noteq> []" "distances (last (steps r)) = Some (dj_distances st)"
    by (simp_all add: dj_snapshot_def)
  ultimately show ?thesis using r(1) dv(2) by blast
qed

subsection \<open>Weights on which the additions are exact\<close>

text \<open>
  The runners add IEEE doubles, the model adds reals. The two agree as long as every number
  involved is a multiple \<open>k / 2 ^ j\<close> of one power of two, with a natural \<open>k\<close> of at
  most \<open>2 ^ 53\<close> and \<open>j\<close> of at most 1074: such a number is a double, and the sum of two
  of them is, too, when its own multiple is at most \<open>2 ^ 53\<close>. \<open>exact_weights j W\<close>
  says that every effective weight is such a multiple with \<open>k\<close> at most \<open>W\<close>, and that
  as many weights as the graph has nodes stay within the bound.
\<close>

definition is_count :: "nat \<Rightarrow> real \<Rightarrow> bool" where
  "is_count K x = (0 \<le> x \<and> x \<le> real K \<and> of_int \<lfloor>x\<rfloor> = x)"

definition exact_weights :: "nat \<Rightarrow> nat \<Rightarrow> Node list \<Rightarrow> Edge list \<Rightarrow> bool" where
  "exact_weights j W nodes edges =
     (j \<le> 1074 \<and> length nodes * W \<le> 2 ^ 53 \<and>
      list_all (\<lambda>e. is_count W (effective_weight (edge_weight e) * 2 ^ j)) edges)"

lemma is_count_iff: "is_count K x \<longleftrightarrow> (\<exists>k \<le> K. x = real k)"
proof
  assume a: "is_count K x"
  then have "0 \<le> \<lfloor>x\<rfloor>" by (simp add: is_count_def)
  then obtain k where k: "\<lfloor>x\<rfloor> = int k" using nonneg_int_cases by blast
  with a have "x = real k" by (simp add: is_count_def)
  moreover from a this have "k \<le> K" by (simp add: is_count_def)
  ultimately show "\<exists>k \<le> K. x = real k" by blast
next
  assume "\<exists>k \<le> K. x = real k"
  then obtain k where k: "k \<le> K" "x = real k" by blast
  from k(2) have "of_int \<lfloor>x\<rfloor> = x" by (simp only: floor_of_nat of_int_of_nat_eq)
  with k show "is_count K x" by (simp add: is_count_def)
qed

lemma is_count_mono: "is_count K x \<Longrightarrow> K \<le> L \<Longrightarrow> is_count L x"
  by (auto simp: is_count_iff)

lemma is_count_add:
  assumes "x = real k" "k + W \<le> K" "is_count W y"
  shows "is_count K (x + y)"
proof -
  from assms(3) obtain m where m: "m \<le> W" "y = real m" by (auto simp: is_count_iff)
  with assms(1,2) have "k + m \<le> K" "x + y = real (k + m)" by simp_all
  then show ?thesis unfolding is_count_iff by blast
qed

lemma exact_weights_nonneg:
  assumes "exact_weights j W nodes edges"
  shows "\<forall>e \<in> set edges. 0 \<le> effective_weight (edge_weight e)"
proof
  fix e assume "e \<in> set edges"
  with assms have "is_count W (effective_weight (edge_weight e) * 2 ^ j)"
    by (simp add: exact_weights_def list_all_iff)
  then have "0 \<le> effective_weight (edge_weight e) * 2 ^ j" by (simp add: is_count_def)
  moreover have "0 < (2::real) ^ j" by simp
  ultimately show "0 \<le> effective_weight (edge_weight e)" by (auto simp: zero_le_mult_iff)
qed

lemma createAdjacencyList_exact:
  assumes "createAdjacencyList nodes edges = Inr adj" "exact_weights j W nodes edges"
    and "n \<in> set (neighbors adj a)"
  shows "is_count W (weight n * 2 ^ j)"
proof -
  from createAdjacencyList_neighbors [OF assms(1,3)] obtain e where
    e: "e \<in> set edges" "(a, n) \<in> edge_entries e" by blast
  from e(2) have "weight n = effective_weight (edge_weight e)" by (auto simp: edge_entries_def)
  with assms(2) e(1) show ?thesis by (simp add: exact_weights_def list_all_iff)
qed

subsection \<open>The distances of a run stay exact\<close>

definition dj_exact :: "nat \<Rightarrow> nat \<Rightarrow> dijkstra_state \<Rightarrow> bool" where
  "dj_exact j K st = (\<forall>v d. dj_D st v = Num d \<longrightarrow> is_count K (d * 2 ^ j))"

lemma dj_exact_mono: "dj_exact j K st \<Longrightarrow> K \<le> L \<Longrightarrow> dj_exact j L st"
  unfolding dj_exact_def using is_count_mono by blast

lemma dj_exact_relax:
  assumes ex: "dj_exact j K st"
    and c: "\<forall>dc. dj_D st c = Num dc \<longrightarrow> (\<exists>k. dc * 2 ^ j = real k \<and> k + W \<le> K)"
    and w: "is_count W (weight n * 2 ^ j)"
  shows "dj_exact j K (dj_relax nodes c n st)"
  unfolding dj_exact_def
proof (intro allI impI)
  fix v d assume d: "dj_D (dj_relax nodes c n st) v = Num d"
  show "is_count K (d * 2 ^ j)"
  proof (cases "nodeId n \<in> set (dj_unvisited st) \<and>
              lt (add_num (dj_D st c) (weight n)) (dj_D st (nodeId n)) \<and> v = nodeId n")
    case False
    with d have "dj_D st v = Num d" by (auto simp: dj_D_relax)
    with ex show ?thesis by (simp add: dj_exact_def)
  next
    case True
    with d have sum: "add_num (dj_D st c) (weight n) = Num d" by (simp add: dj_D_relax)
    then obtain dc where dc: "dj_D st c = Num dc" by (cases "dj_D st c") simp_all
    with sum have eq: "d = dc + weight n" by simp
    from c dc obtain k where k: "dc * 2 ^ j = real k" "k + W \<le> K" by blast
    have "d * 2 ^ j = dc * 2 ^ j + weight n * 2 ^ j" by (simp add: eq algebra_simps)
    with is_count_add [OF k w] show ?thesis by simp
  qed
qed

lemma dj_D_relax_settled:
  "c \<notin> set (dj_unvisited st) \<Longrightarrow> dj_D (dj_relax nodes c n st) c = dj_D st c"
  by (auto simp: dj_D_relax)

lemma dj_exact_neighbors:
  assumes "dj_exact j K st"
    and "\<forall>dc. dj_D st c = Num dc \<longrightarrow> (\<exists>k. dc * 2 ^ j = real k \<and> k + W \<le> K)"
    and "\<forall>n \<in> set ns. is_count W (weight n * 2 ^ j)"
    and "c \<notin> set (dj_unvisited st)"
  shows "dj_exact j K (dj_neighbors nodes c ns st)"
  using assms
proof (induction ns arbitrary: st)
  case Nil
  then show ?case by simp
next
  case (Cons n ns)
  from Cons.prems(3) have w: "is_count W (weight n * 2 ^ j)"
    and ws: "\<forall>n \<in> set ns. is_count W (weight n * 2 ^ j)" by simp_all
  have a: "dj_exact j K (dj_relax nodes c n st)"
    using Cons.prems(1,2) w by (rule dj_exact_relax)
  have b: "\<forall>dc. dj_D (dj_relax nodes c n st) c = Num dc \<longrightarrow>
      (\<exists>k. dc * 2 ^ j = real k \<and> k + W \<le> K)"
    using Cons.prems(2,4) by (simp add: dj_D_relax_settled)
  have c: "c \<notin> set (dj_unvisited (dj_relax nodes c n st))" using Cons.prems(4) by simp
  from Cons.IH [OF a b ws c] show ?case by simp
qed

definition dj_counts :: "nat \<Rightarrow> nat \<Rightarrow> Node list \<Rightarrow> dijkstra_state \<Rightarrow> bool" where
  "dj_counts j W nodes st =
     (set (dj_unvisited st) \<subseteq> node_ids nodes \<and>
      dj_exact j (card (node_ids nodes - set (dj_unvisited st)) * W) st)"

lemma card_node_ids: "card (node_ids nodes - U) \<le> length nodes"
proof -
  have "card (node_ids nodes - U) \<le> card (node_ids nodes)"
    by (rule card_mono) (auto simp: node_ids_def)
  also have "\<dots> \<le> length nodes" unfolding node_ids_def
    by (metis card_image_le card_length le_trans List.finite_set)
  finally show ?thesis .
qed

lemma dj_counts_iter:
  assumes inv: "dj_counts j W nodes st"
    and scan: "min_scan (dj_distances st) (dj_unvisited st) (None, Infinity) = (Some c, sd)"
    and ns: "\<forall>n \<in> set ns. is_count W (weight n * 2 ^ j)"
  shows "dj_counts j W nodes (dj_next nodes (dj_neighbors nodes c ns
           (st\<lparr>dj_unvisited := set_delete (dj_unvisited st) c\<rparr>)))"
proof -
  let ?U = "set (dj_unvisited st)"
  let ?st1 = "st\<lparr>dj_unvisited := set_delete (dj_unvisited st) c\<rparr>"
  let ?K = "card (node_ids nodes - ?U) * W"
  from inv have U: "?U \<subseteq> node_ids nodes" and ex: "dj_exact j ?K st"
    by (simp_all add: dj_counts_def)
  note c = min_scan_Some(1) [OF scan]
  have U1: "set (dj_unvisited ?st1) = ?U - {c}" by (auto simp: set_delete_def)
  have fin: "finite (node_ids nodes)" by (simp add: node_ids_def)
  have "node_ids nodes - (?U - {c}) = insert c (node_ids nodes - ?U)" using c U by auto
  moreover have "c \<notin> node_ids nodes - ?U" using c by simp
  ultimately have card: "card (node_ids nodes - (?U - {c})) = Suc (card (node_ids nodes - ?U))"
    using fin by simp
  then have K1: "card (node_ids nodes - (?U - {c})) * W = ?K + W" by simp
  from ex have "dj_exact j (?K + W) st" by (rule dj_exact_mono) simp
  then have ex1: "dj_exact j (?K + W) ?st1" by (simp add: dj_exact_def)
  have slack: "\<forall>dc. dj_D ?st1 c = Num dc \<longrightarrow> (\<exists>k. dc * 2 ^ j = real k \<and> k + W \<le> ?K + W)"
    using ex unfolding dj_exact_def is_count_iff by auto
  have "c \<notin> set (dj_unvisited ?st1)" by (simp add: set_delete_def)
  with ex1 slack ns have "dj_exact j (?K + W) (dj_neighbors nodes c ns ?st1)"
    by (rule dj_exact_neighbors)
  then have "dj_exact j (?K + W) (dj_next nodes (dj_neighbors nodes c ns ?st1))"
    by (simp add: dj_exact_def)
  with U U1 K1 show ?thesis by (auto simp: dj_counts_def)
qed

lemma dj_counts_init: "s \<in> node_ids nodes \<Longrightarrow> dj_counts j W nodes (dj_init nodes s)"
  by (auto simp: dj_counts_def dj_exact_def dj_D_def dj_init_fields is_count_def
      split: if_splits)

lemma dijkstra_loop_exact:
  assumes adj: "createAdjacencyList nodes edges = Inr adj" and s: "s \<in> node_ids nodes"
    and w: "exact_weights j W nodes edges"
    and run: "dijkstra_loop nodes adj tgt (dj_init nodes s) = Some (Inr st)"
  shows "dj_exact j (length nodes * W) st"
proof (rule dijkstra_loop_rule [where I = "dj_counts j W nodes", OF run])
  show "dj_counts j W nodes (dj_init nodes s)" using s by (rule dj_counts_init)
next
  fix st c sd ns
  assume inv: "dj_counts j W nodes st"
    and scan: "min_scan (dj_distances st) (dj_unvisited st) (None, Infinity) = (Some c, sd)"
    and ns: "map_of adj c = Some ns"
  from ns have "set ns = set (neighbors adj c)" by (simp add: neighbors_def)
  with createAdjacencyList_exact [OF adj w]
  have "\<forall>n \<in> set ns. is_count W (weight n * 2 ^ j)" by blast
  with inv scan show "dj_counts j W nodes (dj_next nodes (dj_neighbors nodes c ns
           (st\<lparr>dj_unvisited := set_delete (dj_unvisited st) c\<rparr>)))"
    by (rule dj_counts_iter)
next
  fix st assume "dj_counts j W nodes st"
  then have "dj_exact j (card (node_ids nodes - set (dj_unvisited st)) * W) st"
    by (simp add: dj_counts_def)
  then show "dj_exact j (length nodes * W) st"
    by (rule dj_exact_mono) (simp add: card_node_ids)
next
  fix st c sd p
  assume "dj_counts j W nodes st"
  then have "dj_exact j (card (node_ids nodes - set (dj_unvisited st)) * W) st"
    by (simp add: dj_counts_def)
  then have "dj_exact j (length nodes * W) st"
    by (rule dj_exact_mono) (simp add: card_node_ids)
  then show "dj_exact j (length nodes * W)
      (dj_push nodes (st\<lparr>dj_unvisited := set_delete (dj_unvisited st) c\<rparr>)
             (Some c) (Some p) (TargetReachedWithDistance c (map_of (dj_distances st) c)))"
    by (simp add: dj_exact_def)
qed

lemma executeDijkstra_exact:
  assumes adj: "createAdjacencyList nodes edges = Inr adj" and s: "s \<in> node_ids nodes"
    and w: "exact_weights j W nodes edges"
    and r: "executeDijkstra nodes edges s tgt = Some (Inr r)"
    and dm: "distances (last (steps r)) = Some dm"
  shows "\<forall>v d. map_of dm v = Some (Num d) \<longrightarrow> is_count (length nodes * W) (d * 2 ^ j)"
proof -
  note dom = createAdjacencyList_Inr(1) [OF adj]
  note cl = createAdjacencyList_closed [OF adj]
  note nn = createAdjacencyList_nonneg [OF adj exact_weights_nonneg [OF w]]
  from dijkstra_loop_post [OF dom nn cl s] obtain st where
    run: "dijkstra_loop nodes adj tgt (dj_init nodes s) = Some (Inr st)"
    and post: "dj_post adj nodes s tgt st" by blast
  from dj_final_post [OF post] obtain st' where
    fin: "dj_final nodes tgt st = Some (Inr st')"
    and same: "dj_distances st' = dj_distances st" and snap: "dj_snapshot st'"
    by blast
  from r have "steps r = dj_steps st'" by (auto simp: executeDijkstra_def adj run fin)
  with snap dm same have eq: "dm = dj_distances st" by (simp add: dj_snapshot_def)
  have "dj_D st v = Num d" if "map_of dm v = Some (Num d)" for v d
    using that by (simp add: dj_D_def read_score_def eq)
  with dijkstra_loop_exact [OF adj s w run] show ?thesis
    unfolding dj_exact_def by blast
qed

section \<open>Sample graphs\<close>

definition plain_node :: "string \<Rightarrow> Node" where
  "plain_node k = \<lparr>node_id = k, node_label = k, node_x = None, node_y = None, node_color = None\<rparr>"

definition placed_node :: "string \<Rightarrow> real \<Rightarrow> real \<Rightarrow> Node" where
  "placed_node k px py = \<lparr>node_id = k, node_label = k, node_x = Some px, node_y = Some py, node_color = None\<rparr>"

definition weighted_edge :: "string \<Rightarrow> string \<Rightarrow> real option \<Rightarrow> Edge" where
  "weighted_edge a b w = \<lparr>edge_id = a @ b, edge_source = a, edge_target = b, edge_weight = w, edge_label = None\<rparr>"

text \<open>The distance the last step of a returned trace records for a node.\<close>

definition final_distance :: "(error + AlgorithmResult) option \<Rightarrow> string \<Rightarrow> score option" where
  "final_distance res v =
     (case res of
        Some (Inr r) \<Rightarrow> (case distances (last (steps r)) of None \<Rightarrow> None | Some dm \<Rightarrow> map_of dm v)
      | _ \<Rightarrow> None)"

lemmas run_simps =
  executeBFS_def executeDFS_def executeDijkstra_def executeAStar_def createAdjacencyList_def
  push_neighbor_def effective_weight_def
  bfs_loop.simps bfs_init_def bfs_push_def bfs_discover_def bfs_advance_def
  dfs_loop.simps dfs_init_def dfs_push_def dfs_add_def
  dijkstra_loop.simps dj_init_def dj_push_def dj_relax_def dj_next_def dj_final_def dj_visited_def
  astar_loop.simps as_init_def as_push_def as_neighbor_def as_next_def as_finish_def getHeuristic_def
  build_path.simps read_score_def set_add_def set_delete_def truthy_string_def Let_def
  plain_node_def placed_node_def weighted_edge_def

section \<open>The claims\<close>

text \<open>
  Claim C2. When every edge references listed nodes, the adjacency projection is built,
  and it lists \<open>b\<close> among the neighbours of \<open>a\<close> exactly when it lists \<open>a\<close> among
  the neighbours of \<open>b\<close>, for all ids \<open>a\<close> and \<open>b\<close>.
\<close>

theorem adjacency_bidirectional:
  assumes "edges_known (node_ids nodes) edges"
  shows "\<exists>adj. createAdjacencyList nodes edges = Inr adj \<and>
           (\<forall>a b. (b \<in> nodeId ` set (neighbors adj a)) = (a \<in> nodeId ` set (neighbors adj b)))"
proof -
  from createAdjacencyList_known [OF assms] obtain adj
    where adj: "createAdjacencyList nodes edges = Inr adj" by blast
  have ent: "entries adj = (\<Union>e \<in> set edges. edge_entries e)"
    using adj by (rule createAdjacencyList_Inr)
  have sym: "a \<in> nodeId ` set (neighbors adj b)" if "b \<in> nodeId ` set (neighbors adj a)" for a b
  proof -
    from that obtain n where n: "(a, n) \<in> entries adj" "nodeId n = b"
      by (auto simp: entries_def)
    with ent obtain e where e: "e \<in> set edges" "(a, n) \<in> edge_entries e" by auto
    then have "(b, \<lparr>nodeId = a, weight = effective_weight (edge_weight e)\<rparr>) \<in> edge_entries e"
      using n(2) by (auto simp: edge_entries_def)
    with e(1) ent have "(b, \<lparr>nodeId = a, weight = effective_weight (edge_weight e)\<rparr>) \<in> entries adj"
      by auto
    then show ?thesis by (force simp: entries_def)
  qed
  from adj sym show ?thesis by blast
qed

theorem adjacency_bidirectional_witness:
  "\<exists>adj. createAdjacencyList [plain_node ''A'', plain_node ''B''] [weighted_edge ''A'' ''B'' None] = Inr adj \<and>
     (\<forall>a b. (b \<in> nodeId ` set (neighbors adj a)) = (a \<in> nodeId ` set (neighbors adj b)))"
  using adjacency_bidirectional [of "[plain_node ''A'', plain_node ''B'']" "[weighted_edge ''A'' ''B'' None]"]
  by (simp add: edges_known_def node_ids_def plain_node_def weighted_edge_def)

text \<open>
  Claim C3. When some edge references an id that is not in the node list, the build of
  the adjacency projection fails with \<open>UnknownNodeReference\<close>, and so does every runner
  that reaches the build: the failure is the whole result, no step is recorded. (The A*
  runner tests its target first, so it reaches the build only with a truthy target.)
\<close>

theorem unknown_reference_fails:
  assumes "\<not> edges_known (node_ids nodes) edges"
  shows "createAdjacencyList nodes edges = Inl UnknownNodeReference \<and>
         executeBFS nodes edges startNodeId targetNodeId = Inl UnknownNodeReference \<and>
         executeDFS nodes edges startNodeId targetNodeId = Inl UnknownNodeReference \<and>
         executeDijkstra nodes edges startNodeId targetNodeId = Some (Inl UnknownNodeReference) \<and>
         (truthy_string targetNodeId \<longrightarrow>
            executeAStar nodes edges startNodeId targetNodeId = Some (Inl UnknownNodeReference))"
  using createAdjacencyList_unknown [OF assms]
  by (auto simp: executeBFS_def executeDFS_def executeDijkstra_def executeAStar_def
      truthy_string_def split: option.splits)

theorem unknown_reference_fails_witness:
  "createAdjacencyList [plain_node ''A''] [weighted_edge ''A'' ''C'' None] = Inl UnknownNodeReference \<and>
   executeBFS [plain_node ''A''] [weighted_edge ''A'' ''C'' None] ''A'' None = Inl UnknownNodeReference \<and>
   executeDFS [plain_node ''A''] [weighted_edge ''A'' ''C'' None] ''A'' None = Inl UnknownNodeReference \<and>
   executeDijkstra [plain_node ''A''] [weighted_edge ''A'' ''C'' None] ''A'' None = Some (Inl UnknownNodeReference) \<and>
   executeAStar [plain_node ''A''] [weighted_edge ''A'' ''C'' None] ''A'' (Some ''A'') = Some (Inl UnknownNodeReference)"
  using unknown_reference_fails [of "[plain_node ''A'']" "[weighted_edge ''A'' ''C'' None]" "''A''" None]
    unknown_reference_fails [of "[plain_node ''A'']" "[weighted_edge ''A'' ''C'' None]" "''A''" "Some ''A''"]
  by (simp add: edges_known_def node_ids_def plain_node_def weighted_edge_def truthy_string_def)

text \<open>
  The heuristic is the Manhattan distance when all four coordinates are present and
  different from zero.
\<close>

lemma getHeuristic_manhattan:
  assumes "map_of nodeMap k = Some n" "map_of nodeMap t = Some g"
    and "node_x n = Some nx" "node_y n = Some ny" "node_x g = Some tx" "node_y g = Some ty"
    and "nx \<noteq> 0" "ny \<noteq> 0" "tx \<noteq> 0" "ty \<noteq> 0"
  shows "getHeuristic nodeMap t k = Inr (\<bar>nx - tx\<bar> + \<bar>ny - ty\<bar>)"
  using assms by (simp add: getHeuristic_def)

text \<open>
  Claim C9. Both nodes have an x and a y coordinate, and their Manhattan distance is 4,
  yet \<open>getHeuristic\<close> returns the fallback 1: the test \<open>!node.x\<close> takes the coordinate
  0 for a missing one.
\<close>

theorem heuristic_zero_coordinate:
  "getHeuristic (build_node_map [placed_node ''N'' 0 5, placed_node ''T'' 3 4] []) ''T'' ''N'' = Inr 1 \<and>
   \<bar>0 - 3\<bar> + \<bar>5 - 4\<bar> = (4::real)"
  by (simp add: getHeuristic_def placed_node_def)

text \<open>
  Claim C4. In the graph with the nodes A and B and no edge, B is unreachable from A.
  The Dijkstra runner asked for the target B still ends its trace with a step that
  carries the path \<open>[B]\<close>: the guard \<open>previous[targetNodeId] !== undefined\<close> holds for
  the initial \<open>null\<close>.
\<close>

theorem unreachable_target_path_step:
  "\<exists>r. executeDijkstra [plain_node ''A'', plain_node ''B''] [] ''A'' (Some ''B'') = Some (Inr r) \<and>
       length (steps r) = 2 \<and>
       path (last (steps r)) = Some [''B''] \<and>
       description (last (steps r)) = FinalShortestPath ''B'' [''B'']"
  by (simp add: run_simps)


text \<open>
  Claim C10. In the steps sequence a runner returns, the record at position \<open>i\<close> has
  the step field \<open>i\<close>, for each of the four runners and every graph, start node and
  optional target.
\<close>

theorem step_indices_consecutive:
  "(executeBFS nodes edges s t = Inr r \<longrightarrow> (\<forall>i < length (steps r). step (steps r ! i) = i)) \<and>
   (executeDFS nodes edges s t = Inr r \<longrightarrow> (\<forall>i < length (steps r). step (steps r ! i) = i)) \<and>
   (executeDijkstra nodes edges s t = Some (Inr r) \<longrightarrow> (\<forall>i < length (steps r). step (steps r ! i) = i)) \<and>
   (executeAStar nodes edges s t = Some (Inr r) \<longrightarrow> (\<forall>i < length (steps r). step (steps r ! i) = i))"
  using indexed_executeBFS [of nodes edges s t r] indexed_executeDFS [of nodes edges s t r]
    indexed_executeDijkstra [of nodes edges s t r] indexed_executeAStar [of nodes edges s t r]
  by (simp add: indexed_def)

theorem step_indices_consecutive_witness:
  "(\<exists>r. executeBFS [plain_node ''A'', plain_node ''B''] [weighted_edge ''A'' ''B'' None] ''A'' None = Inr r \<and>
        length (steps r) = 3 \<and> (\<forall>i < length (steps r). step (steps r ! i) = i)) \<and>
   (\<exists>r. executeDFS [plain_node ''A'', plain_node ''B''] [weighted_edge ''A'' ''B'' None] ''A'' None = Inr r \<and>
        length (steps r) = 4 \<and> (\<forall>i < length (steps r). step (steps r ! i) = i)) \<and>
   (\<exists>r. executeDijkstra [plain_node ''A'', plain_node ''B''] [weighted_edge ''A'' ''B'' None] ''A'' (Some ''B'') = Some (Inr r) \<and>
        length (steps r) = 4 \<and> (\<forall>i < length (steps r). step (steps r ! i) = i)) \<and>
   (\<exists>r. executeAStar [plain_node ''A'', plain_node ''B''] [weighted_edge ''A'' ''B'' None] ''A'' (Some ''B'') = Some (Inr r) \<and>
        length (steps r) = 5 \<and> (\<forall>i < length (steps r). step (steps r ! i) = i))"
proof -
  let ?N = "[plain_node ''A'', plain_node ''B'']" and ?E = "[weighted_edge ''A'' ''B'' None]"
  obtain r1 where r1: "executeBFS ?N ?E ''A'' None = Inr r1" "length (steps r1) = 3"
    by (simp add: run_simps)
  obtain r2 where r2: "executeDFS ?N ?E ''A'' None = Inr r2" "length (steps r2) = 4"
    by (simp add: run_simps)
  obtain r3 where r3: "executeDijkstra ?N ?E ''A'' (Some ''B'') = Some (Inr r3)" "length (steps r3) = 4"
    by (simp add: run_simps)
  obtain r4 where r4: "executeAStar ?N ?E ''A'' (Some ''B'') = Some (Inr r4)" "length (steps r4) = 5"
    by (simp add: run_simps)
  note i1 = step_indices_consecutive [of ?N ?E "''A''" None r1,
      THEN conjunct1, THEN mp, OF r1(1)]
  note i2 = step_indices_consecutive [of ?N ?E "''A''" None r2,
      THEN conjunct2, THEN conjunct1, THEN mp, OF r2(1)]
  note i3 = step_indices_consecutive [of ?N ?E "''A''" "Some ''B''" r3,
      THEN conjunct2, THEN conjunct2, THEN conjunct1, THEN mp, OF r3(1)]
  note i4 = step_indices_consecutive [of ?N ?E "''A''" "Some ''B''" r4,
      THEN conjunct2, THEN conjunct2, THEN conjunct2, THEN mp, OF r4(1)]
  have a1: "\<exists>r. executeBFS ?N ?E ''A'' None = Inr r \<and>
        length (steps r) = 3 \<and> (\<forall>i < length (steps r). step (steps r ! i) = i)"
    using r1 i1 by (intro exI [of _ r1] conjI)
  have a2: "\<exists>r. executeDFS ?N ?E ''A'' None = Inr r \<and>
        length (steps r) = 4 \<and> (\<forall>i < length (steps r). step (steps r ! i) = i)"
    using r2 i2 by (intro exI [of _ r2] conjI)
  have a3: "\<exists>r. executeDijkstra ?N ?E ''A'' (Some ''B'') = Some (Inr r) \<and>
        length (steps r) = 4 \<and> (\<forall>i < length (steps r). step (steps r ! i) = i)"
    using r3 i3 by (intro exI [of _ r3] conjI)
  have a4: "\<exists>r. executeAStar ?N ?E ''A'' (Some ''B'') = Some (Inr r) \<and>
        length (steps r) = 5 \<and> (\<forall>i < length (steps r). step (steps r ! i) = i)"
    using r4 i4 by (intro exI [of _ r4] conjI)
  from a1 a2 a3 a4 show ?thesis by (intro conjI)
qed



text \<open>
  Claim C8. Run without a target on a graph whose edges reference listed nodes, from a
  listed start node, the breadth-first and the depth-first runner both return a trace
  whose last step records a visited list without repetition, of the size of the connected
  component of the start node.
\<close>

theorem traversal_visits_component:
  assumes "edges_known (node_ids nodes) edges" "s \<in> node_ids nodes"
  shows "(\<exists>r. executeBFS nodes edges s None = Inr r \<and> steps r \<noteq> [] \<and>
              distinct (visited (last (steps r))) \<and>
              length (visited (last (steps r))) = card (component edges s)) \<and>
         (\<exists>r. executeDFS nodes edges s None = Inr r \<and> steps r \<noteq> [] \<and>
              distinct (visited (last (steps r))) \<and>
              length (visited (last (steps r))) = card (component edges s))"
proof -
  from createAdjacencyList_known [OF assms(1)] obtain adj
    where adj: "createAdjacencyList nodes edges = Inr adj" by blast
  from bfs_visits_component [OF adj assms(2)] dfs_visits_component [OF adj assms(2)]
  show ?thesis by (metis distinct_card)
qed

theorem traversal_visits_component_witness:
  "(\<exists>r. executeBFS [plain_node ''A'', plain_node ''B'', plain_node ''C''] [weighted_edge ''A'' ''B'' None] ''A'' None = Inr r \<and>
        length (visited (last (steps r))) = 2 \<and>
        card (component [weighted_edge ''A'' ''B'' None] ''A'') = 2) \<and>
   (\<exists>r. executeDFS [plain_node ''A'', plain_node ''B'', plain_node ''C''] [weighted_edge ''A'' ''B'' None] ''A'' None = Inr r \<and>
        length (visited (last (steps r))) = 2 \<and>
        card (component [weighted_edge ''A'' ''B'' None] ''A'') = 2)"
proof -
  let ?N = "[plain_node ''A'', plain_node ''B'', plain_node ''C'']"
  let ?E = "[weighted_edge ''A'' ''B'' None]"
  have known: "edges_known (node_ids ?N) ?E" "''A'' \<in> node_ids ?N"
    by (simp_all add: edges_known_def node_ids_def plain_node_def weighted_edge_def)
  note both = traversal_visits_component [OF known]
  from both obtain r1 where
    r1: "executeBFS ?N ?E ''A'' None = Inr r1"
      "length (visited (last (steps r1))) = card (component ?E ''A'')"
    by blast
  from both obtain r2 where
    r2: "executeDFS ?N ?E ''A'' None = Inr r2"
      "length (visited (last (steps r2))) = card (component ?E ''A'')"
    by blast
  obtain q1 where q1: "executeBFS ?N ?E ''A'' None = Inr q1" "length (visited (last (steps q1))) = 2"
    by (simp add: run_simps)
  obtain q2 where q2: "executeDFS ?N ?E ''A'' None = Inr q2" "length (visited (last (steps q2))) = 2"
    by (simp add: run_simps)
  from r1 q1 have e1: "q1 = r1" by simp
  from r2 q2 have e2: "q2 = r2" by simp
  from r1 q1 have a: "\<exists>r. executeBFS ?N ?E ''A'' None = Inr r \<and>
        length (visited (last (steps r))) = 2 \<and> card (component ?E ''A'') = 2"
    unfolding e1 by (intro exI [of _ r1]) simp
  from r2 q2 have b: "\<exists>r. executeDFS ?N ?E ''A'' None = Inr r \<and>
        length (visited (last (steps r))) = 2 \<and> card (component ?E ''A'') = 2"
    unfolding e2 by (intro exI [of _ r2]) simp
  from a b show ?thesis by (intro conjI)
qed

text \<open>
  Claim C1, as the code has it. The runner stops as soon as a given target is selected,
  so the claim holds for a run without a target, and for a run with a target on the
  nodes the last step lists as visited, the target among them when it is reachable.
  The statement is for a graph whose edges reference listed nodes, a listed start node
  and a target that, if one is given, is a listed node. No node id is empty or
  \<open>__proto__\<close>: the loop test \<open>!currentNode\<close> and the plain objects of the runner
  treat these two ids unlike every other. The effective weights are exact in the sense of
  \<open>exact_weights\<close>, so that the doubles of the code add like the reals here. Then the
  runner returns a trace whose last step records a distance map in which every number is
  a multiple within the exact range, every visited node has the least weight of a walk
  from the start and, without a target, every node that a walk from the start reaches
  has that least weight recorded.
\<close>

theorem dijkstra_distances_shortest:
  assumes "edges_known (node_ids nodes) edges" "s \<in> node_ids nodes"
    and "[] \<notin> node_ids nodes" "''__proto__'' \<notin> node_ids nodes"
    and "\<forall>t. tgt = Some t \<longrightarrow> t = [] \<or> t \<in> node_ids nodes"
    and "exact_weights j W nodes edges"
  shows "\<exists>adj r dm. createAdjacencyList nodes edges = Inr adj \<and>
           executeDijkstra nodes edges s tgt = Some (Inr r) \<and> steps r \<noteq> [] \<and>
           distances (last (steps r)) = Some dm \<and>
           (\<forall>v d. map_of dm v = Some (Num d) \<longrightarrow> is_count (length nodes * W) (d * 2 ^ j)) \<and>
           (\<forall>v \<in> set (visited (last (steps r))).
              \<exists>dv. map_of dm v = Some (Num dv) \<and> shortest adj s v dv) \<and>
           (\<not> truthy_string tgt \<longrightarrow>
              (\<forall>v d. walk adj s v d \<longrightarrow> (\<exists>dv. map_of dm v = Some (Num dv) \<and> shortest adj s v dv))) \<and>
           (\<forall>t d. tgt = Some t \<and> t \<noteq> [] \<and> walk adj s t d \<longrightarrow>
              t \<in> set (visited (last (steps r))))"
proof -
  from createAdjacencyList_known [OF assms(1)] obtain adj
    where adj: "createAdjacencyList nodes edges = Inr adj" by blast
  note nn = createAdjacencyList_nonneg [OF adj exact_weights_nonneg [OF assms(6)]]
  from executeDijkstra_post [OF adj assms(2) nn, of tgt] assms(3) obtain r st where
    r: "executeDijkstra nodes edges s tgt = Some (Inr r)" "steps r = dj_steps st"
    and snap: "dj_snapshot st" and seen: "dj_seen nodes st"
    and settled: "dj_settled adj nodes s st" and complete: "dj_complete adj nodes s tgt st"
    by blast
  have fin: "\<exists>dv. map_of (dj_distances st) v = Some (Num dv) \<and> shortest adj s v dv"
    if "v \<in> node_ids nodes - set (dj_unvisited st)" for v
    using settled that unfolding dj_settled_def dj_D_def by (blast intro: read_score_Num)
  from snap r(2) have a: "steps r \<noteq> []" "distances (last (steps r)) = Some (dj_distances st)"
    by (simp_all add: dj_snapshot_def)
  note e = executeDijkstra_exact [OF adj assms(2) assms(6) r(1) a(2)]
  have b: "\<forall>v \<in> set (visited (last (steps r))).
      \<exists>dv. map_of (dj_distances st) v = Some (Num dv) \<and> shortest adj s v dv"
    using seen fin unfolding dj_seen_def r(2) by blast
  have c: "\<not> truthy_string tgt \<longrightarrow>
      (\<forall>v d. walk adj s v d \<longrightarrow> (\<exists>dv. map_of (dj_distances st) v = Some (Num dv) \<and> shortest adj s v dv))"
    using complete fin unfolding dj_complete_def by (simp split: if_splits)
  have d: "\<forall>t d. tgt = Some t \<and> t \<noteq> [] \<and> walk adj s t d \<longrightarrow> t \<in> set (visited (last (steps r)))"
    using complete unfolding dj_complete_def r(2) by (auto simp: truthy_string_def)
  from adj r(1) a e b c d show ?thesis by blast
qed

theorem dijkstra_distances_shortest_witness:
  "\<exists>adj r dm. createAdjacencyList [plain_node ''A'', plain_node ''B'', plain_node ''C'']
        [weighted_edge ''A'' ''B'' (Some 2), weighted_edge ''B'' ''C'' None,
         weighted_edge ''A'' ''C'' (Some 5)] = Inr adj \<and>
      executeDijkstra [plain_node ''A'', plain_node ''B'', plain_node ''C'']
        [weighted_edge ''A'' ''B'' (Some 2), weighted_edge ''B'' ''C'' None,
         weighted_edge ''A'' ''C'' (Some 5)] ''A'' None = Some (Inr r) \<and>
      distances (last (steps r)) = Some dm \<and> map_of dm ''C'' = Some (Num 3) \<and>
      shortest adj ''A'' ''C'' 3"
proof -
  let ?N = "[plain_node ''A'', plain_node ''B'', plain_node ''C'']"
  let ?E = "[weighted_edge ''A'' ''B'' (Some 2), weighted_edge ''B'' ''C'' None,
             weighted_edge ''A'' ''C'' (Some 5)]"
  have hyps: "edges_known (node_ids ?N) ?E" "''A'' \<in> node_ids ?N" "[] \<notin> node_ids ?N"
    "''__proto__'' \<notin> node_ids ?N" "\<forall>t. None = Some t \<longrightarrow> t = [] \<or> t \<in> node_ids ?N"
    "exact_weights 0 5 ?N ?E"
    by (simp_all add: edges_known_def node_ids_def plain_node_def weighted_edge_def
        effective_weight_def exact_weights_def is_count_def)
  from dijkstra_distances_shortest [OF hyps] obtain adj r dm where
    adj: "createAdjacencyList ?N ?E = Inr adj"
    and r: "executeDijkstra ?N ?E ''A'' None = Some (Inr r)"
    and dm: "distances (last (steps r)) = Some dm"
    and all: "\<forall>v d. walk adj ''A'' v d \<longrightarrow> (\<exists>dv. map_of dm v = Some (Num dv) \<and> shortest adj ''A'' v dv)"
    by (auto simp: truthy_string_def)
  obtain q qm where q: "executeDijkstra ?N ?E ''A'' None = Some (Inr q)"
    "distances (last (steps q)) = Some qm" "map_of qm ''C'' = Some (Num 3)"
    by (simp add: run_simps)
  from r q(1) have eq: "q = r" by simp
  from q(2,3) dm have c: "map_of dm ''C'' = Some (Num 3)" unfolding eq by simp
  have "\<lparr>nodeId = ''C'', weight = 5\<rparr> \<in> set (neighbors adj ''A'')"
    using createAdjacencyList_edge(1) [OF adj, of "weighted_edge ''A'' ''C'' (Some 5)"]
    by (simp add: weighted_edge_def effective_weight_def)
  from walk_step [OF walk_start this] have "walk adj ''A'' ''C'' 5" by simp
  with all c have "shortest adj ''A'' ''C'' 3" by fastforce
  with adj r dm c show ?thesis by blast
qed

text \<open>
  The claim as written also covers a run with a target. On the chain A - B - C with unit
  weights, the run from A with target B stops when B is selected: C is reached by a walk of
  weight 2, and the distance recorded for it in the last step is still Infinity.
\<close>

theorem dijkstra_target_stops_early:
  "createAdjacencyList [plain_node ''A'', plain_node ''B'', plain_node ''C'']
        [weighted_edge ''A'' ''B'' None, weighted_edge ''B'' ''C'' None]
     = Inr [(''A'', [\<lparr>nodeId = ''B'', weight = 1\<rparr>]),
            (''B'', [\<lparr>nodeId = ''A'', weight = 1\<rparr>, \<lparr>nodeId = ''C'', weight = 1\<rparr>]),
            (''C'', [\<lparr>nodeId = ''B'', weight = 1\<rparr>])] \<and>
   walk [(''A'', [\<lparr>nodeId = ''B'', weight = 1\<rparr>]),
         (''B'', [\<lparr>nodeId = ''A'', weight = 1\<rparr>, \<lparr>nodeId = ''C'', weight = 1\<rparr>]),
         (''C'', [\<lparr>nodeId = ''B'', weight = 1\<rparr>])] ''A'' ''C'' 2 \<and>
   final_distance (executeDijkstra [plain_node ''A'', plain_node ''B'', plain_node ''C'']
        [weighted_edge ''A'' ''B'' None, weighted_edge ''B'' ''C'' None] ''A'' (Some ''B'')) ''C''
     = Some Infinity"
proof (intro conjI)
  let ?adj = "[(''A'', [\<lparr>nodeId = ''B'', weight = 1\<rparr>]),
         (''B'', [\<lparr>nodeId = ''A'', weight = 1\<rparr>, \<lparr>nodeId = ''C'', weight = 1\<rparr>]),
         (''C'', [\<lparr>nodeId = ''B'', weight = 1\<rparr>])]"
  show "createAdjacencyList [plain_node ''A'', plain_node ''B'', plain_node ''C'']
        [weighted_edge ''A'' ''B'' None, weighted_edge ''B'' ''C'' None] = Inr ?adj"
    by (simp add: run_simps)
  have ab: "\<lparr>nodeId = ''B'', weight = 1\<rparr> \<in> set (neighbors ?adj ''A'')"
    by (simp add: neighbors_def)
  have bc: "\<lparr>nodeId = ''C'', weight = 1\<rparr> \<in> set (neighbors ?adj ''B'')"
    by (simp add: neighbors_def)
  from walk_step [OF walk_start ab] have "walk ?adj ''A'' ''B'' 1" by simp
  from walk_step [OF this bc] show "walk ?adj ''A'' ''C'' 2" by simp
  show "final_distance (executeDijkstra [plain_node ''A'', plain_node ''B'', plain_node ''C'']
        [weighted_edge ''A'' ''B'' None, weighted_edge ''B'' ''C'' None] ''A'' (Some ''B'')) ''C''
     = Some Infinity"
    by (simp add: final_distance_def run_simps)
qed

text \<open>
  Claim C5. Without a target id (absent, or the empty string, which is as falsy) the A*
  runner throws before it builds anything, for every graph and start. Without a target,
  on a graph whose edges reference listed nodes and from a listed start node, the other
  three runners return a trace, and their loop ends by exhaustion: the breadth-first queue
  and the depth-first stack are empty, and Dijkstra's scan of the unvisited set finds
  no node to select.
\<close>

theorem missing_target_handling:
  "executeAStar nodes edges s None = Some (Inl MissingTarget) \<and>
   executeAStar nodes edges s (Some []) = Some (Inl MissingTarget) \<and>
   (edges_known (node_ids nodes) edges \<and> s \<in> node_ids nodes \<longrightarrow>
      (\<exists>adj. createAdjacencyList nodes edges = Inr adj \<and>
         (\<exists>st r. bfs_loop adj None (bfs_init s) = Inr st \<and> bfs_queue st = [] \<and>
                 executeBFS nodes edges s None = Inr r \<and> steps r = bfs_steps st) \<and>
         (\<exists>st r. dfs_loop adj None (dfs_init s) = Inr st \<and> dfs_stack st = [] \<and>
                 executeDFS nodes edges s None = Inr r \<and> steps r = dfs_steps st) \<and>
         (\<exists>st r. dijkstra_loop nodes adj None (dj_init nodes s) = Some (Inr st) \<and>
                 dj_exhausted st \<and>
                 executeDijkstra nodes edges s None = Some (Inr r) \<and> steps r = dj_steps st)))"
proof (intro conjI impI)
  show "executeAStar nodes edges s None = Some (Inl MissingTarget)"
    by (simp add: executeAStar_def)
  show "executeAStar nodes edges s (Some []) = Some (Inl MissingTarget)"
    by (simp add: executeAStar_def)
next
  assume hyp: "edges_known (node_ids nodes) edges \<and> s \<in> node_ids nodes"
  then obtain adj where adj: "createAdjacencyList nodes edges = Inr adj"
    using createAdjacencyList_known by blast
  from hyp have s: "s \<in> node_ids nodes" by simp
  from bfs_visits_component [OF adj s]
  have a: "\<exists>st r. bfs_loop adj None (bfs_init s) = Inr st \<and> bfs_queue st = [] \<and>
                 executeBFS nodes edges s None = Inr r \<and> steps r = bfs_steps st" by blast
  from dfs_visits_component [OF adj s]
  have b: "\<exists>st r. dfs_loop adj None (dfs_init s) = Inr st \<and> dfs_stack st = [] \<and>
                 executeDFS nodes edges s None = Inr r \<and> steps r = dfs_steps st" by blast
  note c = dijkstra_no_target_exhausts [OF adj, of s]
  from adj a b c
  show "\<exists>adj. createAdjacencyList nodes edges = Inr adj \<and>
         (\<exists>st r. bfs_loop adj None (bfs_init s) = Inr st \<and> bfs_queue st = [] \<and>
                 executeBFS nodes edges s None = Inr r \<and> steps r = bfs_steps st) \<and>
         (\<exists>st r. dfs_loop adj None (dfs_init s) = Inr st \<and> dfs_stack st = [] \<and>
                 executeDFS nodes edges s None = Inr r \<and> steps r = dfs_steps st) \<and>
         (\<exists>st r. dijkstra_loop nodes adj None (dj_init nodes s) = Some (Inr st) \<and>
                 dj_exhausted st \<and>
                 executeDijkstra nodes edges s None = Some (Inr r) \<and> steps r = dj_steps st)"
    by (intro exI [of _ adj] conjI)
qed

theorem missing_target_handling_witness:
  "executeAStar [plain_node ''A'', plain_node ''B''] [weighted_edge ''A'' ''B'' None] ''A'' None
     = Some (Inl MissingTarget) \<and>
   (\<exists>adj. createAdjacencyList [plain_node ''A'', plain_node ''B''] [weighted_edge ''A'' ''B'' None]
            = Inr adj \<and>
      (\<exists>st r. bfs_loop adj None (bfs_init ''A'') = Inr st \<and> bfs_queue st = [] \<and>
         executeBFS [plain_node ''A'', plain_node ''B''] [weighted_edge ''A'' ''B'' None] ''A'' None
           = Inr r \<and> steps r = bfs_steps st) \<and>
      (\<exists>st r. dfs_loop adj None (dfs_init ''A'') = Inr st \<and> dfs_stack st = [] \<and>
         executeDFS [plain_node ''A'', plain_node ''B''] [weighted_edge ''A'' ''B'' None] ''A'' None
           = Inr r \<and> steps r = dfs_steps st) \<and>
      (\<exists>st r. dijkstra_loop [plain_node ''A'', plain_node ''B''] adj None
                 (dj_init [plain_node ''A'', plain_node ''B''] ''A'') = Some (Inr st) \<and>
         dj_exhausted st \<and>
         executeDijkstra [plain_node ''A'', plain_node ''B''] [weighted_edge ''A'' ''B'' None] ''A'' None
           = Some (Inr r) \<and> steps r = dj_steps st))"
proof -
  let ?N = "[plain_node ''A'', plain_node ''B'']"
  let ?E = "[weighted_edge ''A'' ''B'' None]"
  have hyps: "edges_known (node_ids ?N) ?E \<and> ''A'' \<in> node_ids ?N"
    by (simp add: edges_known_def node_ids_def plain_node_def weighted_edge_def)
  note t = missing_target_handling [of ?N ?E "''A''"]
  from t have a: "executeAStar ?N ?E ''A'' None = Some (Inl MissingTarget)" by (rule conjunct1)
  note b = t [THEN conjunct2, THEN conjunct2, THEN mp, OF hyps]
  from a b show ?thesis by (rule conjI)
qed

text \<open>
  Claim C6, as the code has it. An edge declared with weight 0 enters the adjacency
  projection with weight 1 in both directions. The distance Dijkstra records between its
  ends is the least weight of a walk, which another route may make smaller than 1. On a
  graph with such an edge between two different nodes, with no node id empty or
  \<open>__proto__\<close> and with effective weights that are exact in the sense of
  \<open>exact_weights\<close>, a run from one end, without a target or with the other end as
  target, records for the other end its least walk weight, which is positive and at most
  1; it is exactly 1 when no edge of the graph has an effective weight below 1, as in the
  graph of that edge alone.
\<close>

theorem zero_weight_counts_as_one:
  assumes "createAdjacencyList nodes edges = Inr adj" "e \<in> set edges" "edge_weight e = Some 0"
    and "edge_source e = a \<and> edge_target e = b \<or> edge_source e = b \<and> edge_target e = a"
  shows "\<lparr>nodeId = b, weight = 1\<rparr> \<in> set (neighbors adj a) \<and>
         \<lparr>nodeId = a, weight = 1\<rparr> \<in> set (neighbors adj b) \<and>
         (a \<noteq> b \<and> [] \<notin> node_ids nodes \<and> ''__proto__'' \<notin> node_ids nodes \<and>
          exact_weights j W nodes edges \<and> (tgt = None \<or> tgt = Some b) \<longrightarrow>
          (\<exists>r dm dv. executeDijkstra nodes edges a tgt = Some (Inr r) \<and> steps r \<noteq> [] \<and>
             distances (last (steps r)) = Some dm \<and> map_of dm b = Some (Num dv) \<and>
             is_count (length nodes * W) (dv * 2 ^ j) \<and>
             shortest adj a b dv \<and> 0 < dv \<and> dv \<le> 1 \<and>
             ((\<forall>e' \<in> set edges. 1 \<le> effective_weight (edge_weight e')) \<longrightarrow> dv = 1)))"
proof (intro conjI impI)
  note adj = assms(1)
  from assms(3) have w: "effective_weight (edge_weight e) = 1" by (simp add: effective_weight_def)
  note ends = createAdjacencyList_edge [OF adj assms(2), unfolded w]
  from ends assms(4) show ab: "\<lparr>nodeId = b, weight = 1\<rparr> \<in> set (neighbors adj a)" by auto
  from ends assms(4) show "\<lparr>nodeId = a, weight = 1\<rparr> \<in> set (neighbors adj b)" by auto
  assume hyp: "a \<noteq> b \<and> [] \<notin> node_ids nodes \<and> ''__proto__'' \<notin> node_ids nodes \<and>
          exact_weights j W nodes edges \<and> (tgt = None \<or> tgt = Some b)"
  then have ne: "a \<noteq> b" and empty: "[] \<notin> node_ids nodes"
    and ex: "exact_weights j W nodes edges"
    and tgt: "tgt = None \<or> tgt = Some b" by simp_all
  note nn = exact_weights_nonneg [OF ex]
  from createAdjacencyList_Inr(3) [OF adj] assms(2)
  have "edge_source e \<in> node_ids nodes \<and> edge_target e \<in> node_ids nodes"
    by (simp add: edges_known_def list_all_iff)
  with assms(4) have a: "a \<in> node_ids nodes" by auto
  from walk_step [OF walk_start ab] have walk: "walk adj a b 1" by simp
  from executeDijkstra_distance [OF adj a empty nn tgt walk] obtain r dm dv where
    r: "executeDijkstra nodes edges a tgt = Some (Inr r)" "steps r \<noteq> []"
      "distances (last (steps r)) = Some dm" "map_of dm b = Some (Num dv)"
    and sh: "shortest adj a b dv" by blast
  from executeDijkstra_exact [OF adj a ex r(1,3)] r(4)
  have cnt: "is_count (length nodes * W) (dv * 2 ^ j)" by blast
  from sh walk have le: "dv \<le> 1" by (simp add: shortest_def)
  from sh have wdv: "walk adj a b dv" by (simp add: shortest_def)
  have "\<forall>c. \<forall>n \<in> set (neighbors adj c). 0 < weight n"
    using createAdjacencyList_positive [OF adj nn] by blast
  from walk_positive [OF wdv this] ne have pos: "0 < dv" by simp
  have one: "dv = 1" if "\<forall>e' \<in> set edges. 1 \<le> effective_weight (edge_weight e')"
  proof -
    have "\<forall>c. \<forall>n \<in> set (neighbors adj c). 1 \<le> weight n"
      using createAdjacencyList_weights [OF adj that] by blast
    from walk_unit_weights [OF wdv this] ne have "1 \<le> dv" by simp
    with le show ?thesis by simp
  qed
  from r cnt sh pos le one
  show "\<exists>r dm dv. executeDijkstra nodes edges a tgt = Some (Inr r) \<and> steps r \<noteq> [] \<and>
             distances (last (steps r)) = Some dm \<and> map_of dm b = Some (Num dv) \<and>
             is_count (length nodes * W) (dv * 2 ^ j) \<and>
             shortest adj a b dv \<and> 0 < dv \<and> dv \<le> 1 \<and>
             ((\<forall>e' \<in> set edges. 1 \<le> effective_weight (edge_weight e')) \<longrightarrow> dv = 1)"
    by blast
qed

theorem zero_weight_counts_as_one_witness:
  "\<exists>adj r dm. createAdjacencyList [plain_node ''A'', plain_node ''B'']
        [weighted_edge ''A'' ''B'' (Some 0)] = Inr adj \<and>
      \<lparr>nodeId = ''B'', weight = 1\<rparr> \<in> set (neighbors adj ''A'') \<and>
      \<lparr>nodeId = ''A'', weight = 1\<rparr> \<in> set (neighbors adj ''B'') \<and>
      executeDijkstra [plain_node ''A'', plain_node ''B''] [weighted_edge ''A'' ''B'' (Some 0)]
        ''A'' None = Some (Inr r) \<and>
      distances (last (steps r)) = Some dm \<and> map_of dm ''B'' = Some (Num 1)"
proof -
  let ?N = "[plain_node ''A'', plain_node ''B'']"
  let ?e = "weighted_edge ''A'' ''B'' (Some 0)"
  have "edges_known (node_ids ?N) [?e]"
    by (simp add: edges_known_def node_ids_def plain_node_def weighted_edge_def)
  from createAdjacencyList_known [OF this] obtain adj
    where adj: "createAdjacencyList ?N [?e] = Inr adj" by blast
  have e: "?e \<in> set [?e]" "edge_weight ?e = Some 0"
    "edge_source ?e = ''A'' \<and> edge_target ?e = ''B'' \<or> edge_source ?e = ''B'' \<and> edge_target ?e = ''A''"
    by (simp_all add: weighted_edge_def)
  have hyp: "''A'' \<noteq> ''B'' \<and> [] \<notin> node_ids ?N \<and> ''__proto__'' \<notin> node_ids ?N \<and>
      exact_weights 0 1 ?N [?e] \<and> (None = None \<or> None = Some ''B'')"
    by (simp add: node_ids_def plain_node_def weighted_edge_def effective_weight_def
        exact_weights_def is_count_def)
  have unit: "\<forall>e' \<in> set [?e]. 1 \<le> effective_weight (edge_weight e')"
    by (simp add: weighted_edge_def effective_weight_def)
  note t = zero_weight_counts_as_one [OF adj e, of 0 1 None]
  from t have ab: "\<lparr>nodeId = ''B'', weight = 1\<rparr> \<in> set (neighbors adj ''A'')" by (rule conjunct1)
  from t have ba: "\<lparr>nodeId = ''A'', weight = 1\<rparr> \<in> set (neighbors adj ''B'')"
    by (rule conjunct2 [THEN conjunct1])
  from t [THEN conjunct2, THEN conjunct2, THEN mp, OF hyp] obtain r dm dv where
    r: "executeDijkstra ?N [?e] ''A'' None = Some (Inr r)"
      "distances (last (steps r)) = Some dm" "map_of dm ''B'' = Some (Num dv)"
    and one: "(\<forall>e' \<in> set [?e]. 1 \<le> effective_weight (edge_weight e')) \<longrightarrow> dv = 1"
    by blast
  from one unit have "dv = 1" by (rule mp)
  with adj ab ba r show ?thesis by blast
qed

text \<open>
  The claim as written speaks of every graph that contains the edge. With a detour
  A - C - B of two edges of weight 1/4 beside the edge A - B declared with weight 0, the
  distance recorded for B is 1/2.
\<close>

theorem zero_weight_lighter_detour:
  "final_distance (executeDijkstra [plain_node ''A'', plain_node ''B'', plain_node ''C'']
        [weighted_edge ''A'' ''B'' (Some 0), weighted_edge ''A'' ''C'' (Some (1/4)),
         weighted_edge ''C'' ''B'' (Some (1/4))] ''A'' None) ''B'' = Some (Num (1/2))"
  by (simp add: final_distance_def run_simps)

end
